theory Spec2Isabelle
  imports Complex_Main
begin

section \<open>JavaScript numbers\<close>

text \<open>
  The matrix class of \<^verbatim>\<open>src/src/matrix/Matrix.ts\<close> stores its entries in a
  \<^verbatim>\<open>Float32Array\<close> and computes with JavaScript numbers (IEEE-754 doubles).
  A value read by the code is \<^verbatim>\<open>undefined\<close> (a read past the end of an array),
  \<^verbatim>\<open>NaN\<close>, one of the two infinities, or a finite number. Finite numbers are
  reals; the rounding of every arithmetic result to a double, and of every value stored
  in a \<^verbatim>\<open>Float32Array\<close> to a single, is a parameter of the model (the record
  \<open>env\<close>): a result is the rounded exact result, and it overflows to an infinity
  beyond the largest finite value. Theorems that hold for every \<open>env\<close> hold for
  the IEEE roundings in particular. The sign of zero is not modelled: zero is \<open>+0\<close>.

  Dimensions, indices and counts are integers in the model; a number with a fraction
  in their place is not considered.

  \<open>DELTA\<close> is the tolerance constant the source imports from \<^verbatim>\<open>../utils\<close>, which
  is not part of the sources at hand; it is a parameter as well.
\<close>

datatype jsnum = Undefined | NaN | PInf | NInf | Fin real

record env =
  round64 :: "real \<Rightarrow> real"
  max64 :: real
  round32 :: "real \<Rightarrow> real"
  max32 :: real
  DELTA :: real

definition mk64 :: "env \<Rightarrow> real \<Rightarrow> jsnum" where
  "mk64 E x = (let y = round64 E x in
     if max64 E < y then PInf else if y < - max64 E then NInf else Fin y)"

definition mk32 :: "env \<Rightarrow> real \<Rightarrow> jsnum" where
  "mk32 E x = (let y = round32 E x in
     if max32 E < y then PInf else if y < - max32 E then NInf else Fin y)"

text \<open>\<^verbatim>\<open>a + b\<close>\<close>

fun nadd :: "env \<Rightarrow> jsnum \<Rightarrow> jsnum \<Rightarrow> jsnum" where
  "nadd E (Fin x) (Fin y) = mk64 E (x + y)"
| "nadd E (Fin x) PInf = PInf"
| "nadd E (Fin x) NInf = NInf"
| "nadd E PInf (Fin y) = PInf"
| "nadd E PInf PInf = PInf"
| "nadd E NInf (Fin y) = NInf"
| "nadd E NInf NInf = NInf"
| "nadd E _ _ = NaN"

text \<open>\<^verbatim>\<open>a - b\<close>\<close>

fun nsub :: "env \<Rightarrow> jsnum \<Rightarrow> jsnum \<Rightarrow> jsnum" where
  "nsub E (Fin x) (Fin y) = mk64 E (x - y)"
| "nsub E (Fin x) PInf = NInf"
| "nsub E (Fin x) NInf = PInf"
| "nsub E PInf (Fin y) = PInf"
| "nsub E PInf NInf = PInf"
| "nsub E NInf (Fin y) = NInf"
| "nsub E NInf PInf = NInf"
| "nsub E _ _ = NaN"

text \<open>\<^verbatim>\<open>a * b\<close>\<close>

fun nmul :: "env \<Rightarrow> jsnum \<Rightarrow> jsnum \<Rightarrow> jsnum" where
  "nmul E (Fin x) (Fin y) = mk64 E (x * y)"
| "nmul E (Fin x) PInf = (if x = 0 then NaN else if 0 < x then PInf else NInf)"
| "nmul E (Fin x) NInf = (if x = 0 then NaN else if 0 < x then NInf else PInf)"
| "nmul E PInf (Fin y) = (if y = 0 then NaN else if 0 < y then PInf else NInf)"
| "nmul E NInf (Fin y) = (if y = 0 then NaN else if 0 < y then NInf else PInf)"
| "nmul E PInf PInf = PInf"
| "nmul E PInf NInf = NInf"
| "nmul E NInf PInf = NInf"
| "nmul E NInf NInf = PInf"
| "nmul E _ _ = NaN"

text \<open>\<^verbatim>\<open>a / b\<close>\<close>

fun ndiv :: "env \<Rightarrow> jsnum \<Rightarrow> jsnum \<Rightarrow> jsnum" where
  "ndiv E (Fin x) (Fin y) =
     (if y = 0 then (if x = 0 then NaN else if 0 < x then PInf else NInf)
      else mk64 E (x / y))"
| "ndiv E (Fin x) PInf = Fin 0"
| "ndiv E (Fin x) NInf = Fin 0"
| "ndiv E PInf (Fin y) = (if 0 \<le> y then PInf else NInf)"
| "ndiv E NInf (Fin y) = (if 0 \<le> y then NInf else PInf)"
| "ndiv E _ _ = NaN"

text \<open>\<^verbatim>\<open>Math.sqrt(a)\<close>\<close>

fun nsqrt :: "env \<Rightarrow> jsnum \<Rightarrow> jsnum" where
  "nsqrt E (Fin x) = (if x < 0 then NaN else mk64 E (sqrt x))"
| "nsqrt E PInf = PInf"
| "nsqrt E _ = NaN"

text \<open>\<^verbatim>\<open>a ** 2\<close>\<close>

fun nsquare :: "env \<Rightarrow> jsnum \<Rightarrow> jsnum" where
  "nsquare E (Fin x) = mk64 E (x * x)"
| "nsquare E PInf = PInf"
| "nsquare E NInf = PInf"
| "nsquare E _ = NaN"

text \<open>\<^verbatim>\<open>a < b\<close>\<close>

fun nless :: "jsnum \<Rightarrow> jsnum \<Rightarrow> bool" where
  "nless (Fin x) (Fin y) = (x < y)"
| "nless (Fin x) PInf = True"
| "nless NInf (Fin y) = True"
| "nless NInf PInf = True"
| "nless _ _ = False"

text \<open>\<^verbatim>\<open>isNaN(a)\<close>, \<^verbatim>\<open>typeof a === 'number'\<close>, \<^verbatim>\<open>a === 0\<close> and \<^verbatim>\<open>a !== 0\<close>\<close>

definition isNaN :: "jsnum \<Rightarrow> bool" where
  "isNaN v = (v = NaN \<or> v = Undefined)"

definition typeof_number :: "jsnum \<Rightarrow> bool" where
  "typeof_number v = (v \<noteq> Undefined)"

definition is_zero :: "jsnum \<Rightarrow> bool" where
  "is_zero v = (v = Fin 0)"

section \<open>Typed arrays and arrays\<close>

text \<open>
  A \<^verbatim>\<open>Float32Array\<close> has a fixed length: a read past its end is
  \<^verbatim>\<open>undefined\<close>, a write past its end is ignored, and a stored value is converted
  to a single-precision number first (\<^verbatim>\<open>undefined\<close> becomes \<^verbatim>\<open>NaN\<close>).
\<close>

type_synonym float32array = "jsnum list"

fun fround :: "env \<Rightarrow> jsnum \<Rightarrow> jsnum" where
  "fround E (Fin x) = mk32 E x"
| "fround E Undefined = NaN"
| "fround E v = v"

definition f32_new :: "nat \<Rightarrow> float32array" where
  "f32_new n = replicate n (Fin 0)"

definition f32_get :: "float32array \<Rightarrow> nat \<Rightarrow> jsnum" where
  "f32_get a i = (if i < length a then a ! i else Undefined)"

definition f32_set :: "env \<Rightarrow> float32array \<Rightarrow> nat \<Rightarrow> jsnum \<Rightarrow> float32array" where
  "f32_set E a i v = (if i < length a then a[i := fround E v] else a)"

text \<open>
  A \<^verbatim>\<open>number[]\<close> grows when written past its end; the holes this leaves read as
  \<^verbatim>\<open>undefined\<close>, as does every read past the end.
\<close>

definition arr_get :: "jsnum list \<Rightarrow> nat \<Rightarrow> jsnum" where
  "arr_get a i = (if i < length a then a ! i else Undefined)"

definition arr_set :: "jsnum list \<Rightarrow> nat \<Rightarrow> jsnum \<Rightarrow> jsnum list" where
  "arr_set a i v =
     (if i < length a then a[i := v] else a @ replicate (i - length a) Undefined @ [v])"

section \<open>Errors\<close>

text \<open>
  \<^verbatim>\<open>MatrixError\<close> carries a message and a numeric code (its context payload is left
  out); \<^verbatim>\<open>strassenMultiply\<close> throws a plain \<^verbatim>\<open>Error\<close>. The branches that test
  \<^verbatim>\<open>typeof x !== "number"\<close> on an index or a dimension, \<^verbatim>\<open>Array.isArray\<close> or
  \<^verbatim>\<open>instanceof\<close> on an argument cannot be taken by a caller that respects the declared
  parameter types, and are left out with them.
\<close>

datatype error = MatrixError string nat | Error string

definition bindE :: "error + 'a \<Rightarrow> ('a \<Rightarrow> error + 'b) \<Rightarrow> error + 'b" where
  "bindE m f = (case m of Inl e \<Rightarrow> Inl e | Inr x \<Rightarrow> f x)"

section \<open>The matrix entity\<close>

record Matrix =
  shape :: string
  isSquare :: bool
  isTall :: bool
  isWide :: bool
  rows :: nat
  columns :: nat
  sizeM :: nat
  mElements :: float32array

text \<open>The decimal digits of a natural number, as a template literal prints it.\<close>

definition digit :: "nat \<Rightarrow> char" where
  "digit d = ''0123456789'' ! d"

fun string_of_nat :: "nat \<Rightarrow> string" where
  "string_of_nat n =
     (if n < 10 then [digit n]
      else string_of_nat (n div 10) @ [digit (n mod 10)])"

declare string_of_nat.simps [simp del]

definition updateSpecification :: "Matrix \<Rightarrow> Matrix" where
  "updateSpecification m =
     (if rows m > columns m then m\<lparr>isTall := \<not> isTall m\<rparr>
      else if columns m > rows m then m\<lparr>isWide := \<not> isWide m\<rparr>
      else m\<lparr>isSquare := \<not> isSquare m\<rparr>)"

definition updateShape :: "Matrix \<Rightarrow> Matrix" where
  "updateShape m =
     m\<lparr>shape := ''('' @ string_of_nat (rows m) @ '','' @ string_of_nat (columns m) @ '')''\<rparr>"

definition updateMatrix :: "Matrix \<Rightarrow> Matrix" where
  "updateMatrix m = updateShape (updateSpecification m)"

text \<open>The field initialisers of the class, with the dimensions and the storage given.\<close>

definition fresh :: "nat \<Rightarrow> nat \<Rightarrow> float32array \<Rightarrow> Matrix" where
  "fresh r c els =
     \<lparr>shape = ''0'', isSquare = False, isTall = False, isWide = False,
      rows = r, columns = c, sizeM = r * c, mElements = els\<rparr>"

fun validateFloatArray :: "float32array \<Rightarrow> error + unit" where
  "validateFloatArray [] = Inr ()"
| "validateFloatArray (v # vs) =
     (if \<not> typeof_number v \<or> isNaN v
      then Inl (MatrixError ''Invalid Float32Array entries'' 805)
      else validateFloatArray vs)"

text \<open>
  The constructor, called with a \<^verbatim>\<open>Float32Array\<close>: \<open>None\<close> is an argument left
  \<^verbatim>\<open>undefined\<close>. The array becomes the storage as it is.
\<close>

definition Matrix_of_buffer :: "float32array \<Rightarrow> int option \<Rightarrow> int option \<Rightarrow> error + Matrix" where
  "Matrix_of_buffer entries r c =
     (case (r, c) of
        (Some r', Some c') \<Rightarrow>
          if c' \<le> 0 \<or> r' \<le> 0
          then Inl (MatrixError ''Rows and columns must be defined for Float32Array entries, be of type number and not be 0 or negative'' 804)
          else bindE (validateFloatArray entries)
                 (\<lambda>_. Inr (updateMatrix (fresh (nat r') (nat c') entries)))
      | _ \<Rightarrow> Inl (MatrixError ''Rows and columns must be defined for Float32Array entries, be of type number and not be 0 or negative'' 804))"

text \<open>The same call with both dimensions given, as every call in the class is.\<close>

definition new_Matrix :: "float32array \<Rightarrow> nat \<Rightarrow> nat \<Rightarrow> error + Matrix" where
  "new_Matrix entries r c = Matrix_of_buffer entries (Some (int r)) (Some (int c))"

definition validateMatrixEntries :: "jsnum list list \<Rightarrow> bool" where
  "validateMatrixEntries entries =
     (let numRows = length entries in
      if numRows = 0 then False
      else let numCols = length (entries ! 0) in
        if numCols = 0 then False
        else list_all (\<lambda>row. length row = numCols \<and>
                               list_all (\<lambda>v. typeof_number v \<and> \<not> isNaN v) row) entries)"

text \<open>The constructor, called with an array of rows.\<close>

definition Matrix_of_rows :: "env \<Rightarrow> jsnum list list \<Rightarrow> error + Matrix" where
  "Matrix_of_rows E entries =
     (if \<not> validateMatrixEntries entries then Inl (MatrixError ''Invalid matrix entries'' 803)
      else
        let numRows = length entries;
            numCols = length (entries ! 0);
            els = fold (\<lambda>i a. fold (\<lambda>j a. f32_set E a (i * numCols + j) (arr_get (entries ! i) j))
                                [0..<numCols] a)
                    [0..<numRows] (f32_new (numRows * numCols))
        in Inr (updateMatrix (fresh numRows numCols els)))"

section \<open>Element access\<close>

definition getElement :: "Matrix \<Rightarrow> int \<Rightarrow> int \<Rightarrow> error + jsnum" where
  "getElement m row column =
     (let index = row * int (columns m) + column in
      if index > int (sizeM m) \<or> index < 0 then Inl (MatrixError ''Index out of bounds'' 800)
      else Inr (f32_get (mElements m) (nat index)))"

definition getRow :: "Matrix \<Rightarrow> int \<Rightarrow> error + jsnum list" where
  "getRow m rowIndex =
     (if rowIndex < 0 \<or> rowIndex \<ge> int (rows m)
      then Inl (MatrixError ''Row index out of bounds'' 800)
      else
        let startIndex = nat rowIndex * columns m;
            endIndex = startIndex + columns m
        in Inr (map (f32_get (mElements m)) [startIndex..<endIndex]))"

text \<open>
  The loop of \<^verbatim>\<open>getColumn\<close> steps by the number of columns. The test \<open>0 < step\<close>
  is the model's: with a step of zero the loop is entered only when \<open>i < endIndex\<close>,
  which \<^verbatim>\<open>getColumn\<close> excludes (its end index is then its start index).
\<close>

function getColumn_loop :: "float32array \<Rightarrow> nat \<Rightarrow> nat \<Rightarrow> nat \<Rightarrow> jsnum list" where
  "getColumn_loop a i endIndex step =
     (if i < endIndex \<and> 0 < step then f32_get a i # getColumn_loop a (i + step) endIndex step
      else [])"
  by pat_completeness auto
termination
  by (relation "measure (\<lambda>(a, i, endIndex, step). endIndex - i)") auto

declare getColumn_loop.simps [simp del]

definition getColumn :: "Matrix \<Rightarrow> int \<Rightarrow> error + jsnum list" where
  "getColumn m columnIndex =
     (if columnIndex < 0 \<or> columnIndex \<ge> int (rows m)
      then Inl (MatrixError ''Row index out of bounds'' 800)
      else
        let startIndex = nat columnIndex;
            endIndex = rows m * columns m + nat columnIndex
        in Inr (getColumn_loop (mElements m) startIndex endIndex (columns m)))"

definition setElement :: "env \<Rightarrow> Matrix \<Rightarrow> int \<Rightarrow> int \<Rightarrow> jsnum \<Rightarrow> error + Matrix" where
  "setElement E m row column v =
     (if \<not> typeof_number v then Inl (MatrixError ''Invalid arugment'' 606)
      else
        let index = row * int (columns m) + column in
        if index > int (sizeM m) \<or> index < 0 then Inl (MatrixError ''Index out of bounds'' 800)
        else Inr (m\<lparr>mElements := f32_set E (mElements m) (nat index) v\<rparr>))"

section \<open>Elementwise arithmetic\<close>

text \<open>The body of the loops of \<^verbatim>\<open>add\<close> and \<^verbatim>\<open>addasync\<close>:
  \<^verbatim>\<open>resultElements[i] += B.mElements[i]\<close>.\<close>

definition add_at :: "env \<Rightarrow> float32array \<Rightarrow> nat \<Rightarrow> float32array \<Rightarrow> float32array" where
  "add_at E b i res = f32_set E res i (nadd E (f32_get res i) (f32_get b i))"

definition add :: "env \<Rightarrow> Matrix \<Rightarrow> Matrix \<Rightarrow> error + Matrix" where
  "add E this B =
     (if shape this \<noteq> shape B
      then Inl (MatrixError ''Invalid matrix dimensions for addition'' 805)
      else
        let resultElements = fold (add_at E (mElements B)) [0..<sizeM this] (mElements this)
        in new_Matrix resultElements (rows this) (columns this))"

text \<open>
  \<^verbatim>\<open>addasync\<close>: \<open>numProcessors\<close> is \<^verbatim>\<open>os.cpus().length\<close>. The executor of a
  \<^verbatim>\<open>new Promise\<close> runs at once, inside the constructor call, so the chunks are
  added one after the other, in the order of the loop; \<^verbatim>\<open>await Promise.all\<close> then
  finds every promise resolved. With no processor the loop over the chunks does not run,
  whatever the chunk size is.
\<close>

definition addasync :: "env \<Rightarrow> nat \<Rightarrow> Matrix \<Rightarrow> Matrix \<Rightarrow> error + Matrix" where
  "addasync E numProcessors this B =
     (if shape this \<noteq> shape B
      then Inl (MatrixError ''Invalid matrix dimensions for addition'' 805)
      else
        let size' = sizeM this;
            chunkSize = nat \<lceil>real size' / real numProcessors\<rceil>;
            resultElements =
              fold (\<lambda>i res.
                      let start = i * chunkSize;
                          end = min (start + chunkSize) size'
                      in fold (add_at E (mElements B)) [start..<end] res)
                [0..<numProcessors] (mElements this)
        in new_Matrix resultElements (rows this) (columns this))"

definition subtract :: "env \<Rightarrow> Matrix \<Rightarrow> Matrix \<Rightarrow> error + Matrix" where
  "subtract E this B =
     (if shape this \<noteq> shape B
      then Inl (MatrixError ''Invalid matrix dimensions for subtraction'' 805)
      else
        let resultElements =
              fold (\<lambda>i res. f32_set E res i (nsub E (f32_get res i) (f32_get (mElements B) i)))
                [0..<sizeM this] (mElements this)
        in new_Matrix resultElements (rows this) (columns this))"

text \<open>
  Modelled from the spec: \<^verbatim>\<open>MatrixUtils.clone\<close>, which is not part of the sources at
  hand, is ``a deep structural clone of a matrix (new storage, same shape/flags)''. Storage
  is a value here, so the clone is the matrix itself.
\<close>

definition clone :: "Matrix \<Rightarrow> Matrix" where
  "clone m = m"

definition scale :: "env \<Rightarrow> Matrix \<Rightarrow> jsnum \<Rightarrow> error + Matrix" where
  "scale E this scalar =
     (if \<not> typeof_number scalar then Inl (MatrixError ''Invalid scalar'' 606)
      else
        let scaledMatrix = clone this
        in Inr (scaledMatrix\<lparr>mElements := map (\<lambda>entry. fround E (nmul E entry scalar))
                                               (mElements scaledMatrix)\<rparr>))"

text \<open>The loops of \<^verbatim>\<open>transpose\<close>: they read the storage \<open>src\<close> of the receiver
  and write into the storage \<open>dst\<close> of its clone.\<close>

definition transpose_loop :: "env \<Rightarrow> nat \<Rightarrow> nat \<Rightarrow> float32array \<Rightarrow> float32array \<Rightarrow> float32array" where
  "transpose_loop E rows' columns' src dst =
     fold (\<lambda>i a. fold (\<lambda>j a. f32_set E a (j * rows' + i) (f32_get src (i * columns' + j)))
                  [0..<columns'] a)
       [0..<rows'] dst"

definition transposeM :: "env \<Rightarrow> Matrix \<Rightarrow> Matrix" where
  "transposeM E this =
     (let transposedMatrix = clone this;
          rows' = rows transposedMatrix;
          columns' = columns transposedMatrix;
          els = transpose_loop E rows' columns' (mElements this) (mElements transposedMatrix);
          t1 = transposedMatrix\<lparr>mElements := els, rows := columns', columns := rows'\<rparr>;
          t2 = (if isTall t1 then t1\<lparr>isTall := False, isWide := True\<rparr>
                else if isWide t1 then t1\<lparr>isTall := True, isWide := False\<rparr>
                else t1)
      in updateShape t2)"

section \<open>Submatrices\<close>

definition getSubmatrix :: "env \<Rightarrow> Matrix \<Rightarrow> nat \<Rightarrow> nat \<Rightarrow> nat \<Rightarrow> error + Matrix" where
  "getSubmatrix E this startRow startCol size' =
     (let submatrixElements =
            fold (\<lambda>i a. fold (\<lambda>j a. f32_set E a (i * size' + j)
                                      (f32_get (mElements this)
                                         ((startRow + i) * columns this + (startCol + j))))
                          [0..<size'] a)
              [0..<size'] (f32_new (size' * size'))
      in new_Matrix submatrixElements size' size')"

text \<open>
  \<^verbatim>\<open>setSubmatrix\<close> takes \<^verbatim>\<open>Math.sqrt(submatrixElements.length)\<close> for the size of
  the block. \<open>sqrt_up n 0\<close> is the least natural number whose square is at least \<open>n\<close>:
  the number of values the loop variables take, and the square root itself when \<open>n\<close> is
  a square. When it is not, the root is not an integer, and the index \<^verbatim>\<open>i * size + j\<close>
  is one only in the first row of the block, where it is \<open>j\<close>; every other read finds
  no element.
\<close>

function sqrt_up :: "nat \<Rightarrow> nat \<Rightarrow> nat" where
  "sqrt_up n k = (if k * k < n then sqrt_up n (Suc k) else k)"
  by pat_completeness auto
termination
  by (relation "measure (\<lambda>(n, k). n - k * k)") auto

declare sqrt_up.simps [simp del]

definition setSubmatrix :: "env \<Rightarrow> Matrix \<Rightarrow> nat \<Rightarrow> nat \<Rightarrow> float32array \<Rightarrow> Matrix" where
  "setSubmatrix E this startRow startCol submatrixElements =
     (let n = length submatrixElements;
          size' = sqrt_up n 0;
          els = fold (\<lambda>i a. fold (\<lambda>j a. f32_set E a ((startRow + i) * columns this + (startCol + j))
                                            (if size' * size' = n then f32_get submatrixElements (i * size' + j)
                                             else if i = 0 then f32_get submatrixElements j
                                             else Undefined))
                                [0..<size'] a)
                  [0..<size'] (mElements this)
      in this\<lparr>mElements := els\<rparr>)"

section \<open>Multiplication\<close>

text \<open>
  The two inner loops of \<^verbatim>\<open>naiveMultiply\<close>: \<open>k\<close> steps by the unrolling factor,
  \<open>u\<close> runs through one block. The test \<open>0 < unrollingFactor\<close> is the model's: the
  factor is zero only when there are no columns, and then the loop is not entered.
\<close>

function naiveMultiply_blocks ::
  "env \<Rightarrow> float32array \<Rightarrow> float32array \<Rightarrow> nat \<Rightarrow> nat \<Rightarrow> nat \<Rightarrow> nat \<Rightarrow> nat \<Rightarrow> jsnum \<Rightarrow> jsnum" where
  "naiveMultiply_blocks E multipliersA multipliersB rowOffsetA colOffsetB columns' unrollingFactor k sum0 =
     (if k < columns' \<and> 0 < unrollingFactor then
        let limit = min (k + unrollingFactor) columns';
            sum1 = fold (\<lambda>u s. nadd E s (nmul E (f32_get multipliersA (rowOffsetA + u))
                                                 (f32_get multipliersB (colOffsetB + u))))
                     [k..<limit] sum0
        in naiveMultiply_blocks E multipliersA multipliersB rowOffsetA colOffsetB columns'
             unrollingFactor (k + unrollingFactor) sum1
      else sum0)"
  by pat_completeness auto
termination
  by (relation "measure (\<lambda>(E, a, b, ra, cb, columns', uf, k, sum0). columns' - k)") auto

declare naiveMultiply_blocks.simps [simp del]

definition naiveMultiply :: "env \<Rightarrow> Matrix \<Rightarrow> Matrix \<Rightarrow> error + Matrix" where
  "naiveMultiply E this B =
     (if columns this \<noteq> rows B
      then Inl (MatrixError ''Invalid matrix dimensions for multiplication'' 807)
      else
        let rows' = rows this;
            columns' = columns this;
            matrixColumns = columns B;
            multipliersA = mElements this;
            multipliersB = mElements (transposeM E B);
            unrollingFactor = min columns' 16;
            result =
              fold (\<lambda>i res.
                      let rowOffsetA = i * columns';
                          rowOffsetResult = i * matrixColumns
                      in fold (\<lambda>j res.
                                 let colOffsetB = j * unrollingFactor;
                                     sum = naiveMultiply_blocks E multipliersA multipliersB
                                             rowOffsetA colOffsetB columns' unrollingFactor 0 (Fin 0)
                                 in f32_set E res (rowOffsetResult + j) sum)
                           [0..<matrixColumns] res)
                [0..<rows'] (f32_new (rows' * matrixColumns))
        in new_Matrix result rows' matrixColumns)"

text \<open>
  Modelled from the spec: \<^verbatim>\<open>MathUtils.isPowerOfTwo\<close>, which is not part of the sources
  at hand, is the ``power-of-two test'': it holds of 1, 2, 4, 8 and so on.
\<close>

fun isPowerOfTwo :: "nat \<Rightarrow> bool" where
  "isPowerOfTwo n = (if n \<le> 1 then n = 1 else even n \<and> isPowerOfTwo (n div 2))"

declare isPowerOfTwo.simps [simp del]

text \<open>
  \<^verbatim>\<open>strassenMultiply\<close>. The statements of the source are taken in their order; an
  argument is evaluated before the call it is passed to. The recursive calls are on
  matrices with half as many rows (section ``Strassen multiplication'' has the proof that
  the recursion ends).
\<close>

lemma bindE_cong [fundef_cong]:
  "m = m' \<Longrightarrow> (\<And>x. m' = Inr x \<Longrightarrow> f x = f' x) \<Longrightarrow> bindE m f = bindE m' f'"
  by (auto simp: bindE_def split: sum.splits)

function strassenMultiply :: "env \<Rightarrow> Matrix \<Rightarrow> Matrix \<Rightarrow> error + Matrix" where
  "strassenMultiply E this other =
     (let n = rows this in
      if \<not> isSquare this \<or> \<not> isSquare other \<or> columns this \<noteq> rows other \<or> \<not> isPowerOfTwo n
      then Inl (Error ''Matrices must be square and have dimensions that are powers of 2'')
      else if n \<le> 2 then naiveMultiply E this other
      else
        let halfSize = n div 2 in
        bindE (getSubmatrix E this 0 0 halfSize) (\<lambda>A11.
        bindE (getSubmatrix E this 0 halfSize halfSize) (\<lambda>A12.
        bindE (getSubmatrix E this halfSize 0 halfSize) (\<lambda>A21.
        bindE (getSubmatrix E this halfSize halfSize halfSize) (\<lambda>A22.
        bindE (getSubmatrix E other 0 0 halfSize) (\<lambda>B11.
        bindE (getSubmatrix E other 0 halfSize halfSize) (\<lambda>B12.
        bindE (getSubmatrix E other halfSize 0 halfSize) (\<lambda>B21.
        bindE (getSubmatrix E other halfSize halfSize halfSize) (\<lambda>B22.
        bindE (bindE (subtract E B12 B22) (strassenMultiply E A11)) (\<lambda>P1.
        bindE (bindE (add E A11 A12) (\<lambda>S. strassenMultiply E S B22)) (\<lambda>P2.
        bindE (bindE (add E A21 A22) (\<lambda>S. strassenMultiply E S B11)) (\<lambda>P3.
        bindE (bindE (subtract E B21 B11) (strassenMultiply E A22)) (\<lambda>P4.
        bindE (bindE (add E A11 A22) (\<lambda>S. bindE (add E B11 B22) (strassenMultiply E S))) (\<lambda>P5.
        bindE (bindE (subtract E A12 A22) (\<lambda>S. bindE (add E B21 B22) (strassenMultiply E S))) (\<lambda>P6.
        bindE (bindE (subtract E A11 A21) (\<lambda>S. bindE (add E B11 B12) (strassenMultiply E S))) (\<lambda>P7.
        bindE (bindE (bindE (add E P5 P4) (\<lambda>X. subtract E X P2)) (\<lambda>X. add E X P6)) (\<lambda>C11.
        bindE (add E P1 P2) (\<lambda>C12.
        bindE (add E P3 P4) (\<lambda>C21.
        bindE (bindE (bindE (add E P5 P1) (\<lambda>X. subtract E X P3)) (\<lambda>X. subtract E X P7)) (\<lambda>C22.
        bindE (new_Matrix (f32_new (n * n)) n n) (\<lambda>C.
          Inr (setSubmatrix E
                 (setSubmatrix E
                    (setSubmatrix E
                       (setSubmatrix E C 0 0 (mElements C11))
                       0 halfSize (mElements C12))
                    halfSize 0 (mElements C21))
                 halfSize halfSize (mElements C22)))))))))))))))))))))))"
  by pat_completeness auto

section \<open>Triangular systems\<close>

text \<open>A loop whose body can throw: the first error ends it.\<close>

fun foldE :: "('a \<Rightarrow> 's \<Rightarrow> error + 's) \<Rightarrow> 'a list \<Rightarrow> 's \<Rightarrow> error + 's" where
  "foldE f [] s = Inr s"
| "foldE f (x # xs) s = bindE (f x s) (foldE f xs)"

text \<open>The entries below the diagonal, in the order \<^verbatim>\<open>isUpperTriangular\<close> reads them; the
  first one that is not zero ends the loops.\<close>

fun isUpperTriangular_loop :: "Matrix \<Rightarrow> (nat \<times> nat) list \<Rightarrow> error + bool" where
  "isUpperTriangular_loop A [] = Inr True"
| "isUpperTriangular_loop A ((i, j) # ps) =
     bindE (getElement A (int i) (int j))
       (\<lambda>v. if \<not> is_zero v then Inr False else isUpperTriangular_loop A ps)"

definition isUpperTriangular :: "Matrix \<Rightarrow> error + bool" where
  "isUpperTriangular A =
     isUpperTriangular_loop A (concat (map (\<lambda>i. map (\<lambda>j. (i, j)) [0..<i]) [1..<columns A]))"

text \<open>The body of the outer loop of \<^verbatim>\<open>backSubstitution\<close>: row \<open>i\<close>.\<close>

definition back_step :: "env \<Rightarrow> Matrix \<Rightarrow> jsnum list \<Rightarrow> nat \<Rightarrow> jsnum list \<Rightarrow> error + jsnum list" where
  "back_step E this b i sol =
     bindE (getElement this (int i) (int i)) (\<lambda>currentDiag.
       if is_zero currentDiag
       then Inl (MatrixError ''Unsolvable system: zero on diagonal'' 814)
       else
         bindE (foldE (\<lambda>j sum. bindE (getElement this (int i) (int j))
                                  (\<lambda>a. Inr (nadd E sum (nmul E (arr_get sol j) a))))
                  (rev [Suc i..<columns this]) (Fin 0))
           (\<lambda>sum. Inr (arr_set sol i (ndiv E (nsub E (arr_get b i) sum) currentDiag))))"

definition backSubstitution :: "env \<Rightarrow> Matrix \<Rightarrow> jsnum list \<Rightarrow> error + jsnum list" where
  "backSubstitution E this b =
     bindE (isUpperTriangular this) (\<lambda>upper.
       if \<not> upper then Inl (MatrixError ''Matrix is not upper triangular'' 815)
       else foldE (back_step E this b) (rev [0..<rows this]) [])"

text \<open>The rows \<^verbatim>\<open>identity\<close> builds.\<close>

definition identity_entries :: "nat \<Rightarrow> jsnum list list" where
  "identity_entries n = map (\<lambda>i. map (\<lambda>j. if i = j then Fin 1 else Fin 0) [0..<n]) [0..<n]"

definition identity :: "env \<Rightarrow> int \<Rightarrow> error + Matrix" where
  "identity E dimension =
     (if dimension \<le> 0 then Inl (MatrixError ''Invalid argument'' 606)
      else Matrix_of_rows E (identity_entries (nat dimension)))"

text \<open>
  \<^verbatim>\<open>invertUpper\<close> fills \<^verbatim>\<open>invertedMatrixElements\<close> from its last index down to
  its first, so the array is, at every moment, the list of the rows written so far.
\<close>

definition invertUpper :: "env \<Rightarrow> Matrix \<Rightarrow> error + Matrix" where
  "invertUpper E this =
     (if \<not> isSquare this
      then Inl (MatrixError ''Uninvertable matrix: not a square matrix'' 812)
      else
        bindE (isUpperTriangular this) (\<lambda>upper.
          if \<not> upper then Inl (MatrixError ''Matrix is not upper triangular'' 815)
          else
            bindE (identity E (int (rows this))) (\<lambda>identityMatrix.
              bindE (foldE (\<lambda>i inverted.
                              bindE (getRow identityMatrix (int (rows this) - int i - 1)) (\<lambda>row.
                                bindE (backSubstitution E this row) (\<lambda>sol. Inr (sol # inverted))))
                       (rev [0..<rows this]) [])
                (\<lambda>invertedMatrixElements.
                   bindE (Matrix_of_rows E (rev invertedMatrixElements))
                     (\<lambda>m. Inr (transposeM E m))))))"

text \<open>
  \<^verbatim>\<open>isLowerTriangular\<close> runs the same two loops as \<^verbatim>\<open>isUpperTriangular\<close> and reads
  the entry in row \<open>j\<close> and column \<open>i\<close> where that one reads row \<open>i\<close> and column \<open>j\<close>.
\<close>

definition isLowerTriangular :: "Matrix \<Rightarrow> error + bool" where
  "isLowerTriangular A =
     isUpperTriangular_loop A (concat (map (\<lambda>i. map (\<lambda>j. (j, i)) [0..<i]) [1..<columns A]))"

text \<open>The body of the outer loop of \<^verbatim>\<open>forwardSubstitution\<close>: row \<open>i\<close>.\<close>

definition forward_step :: "env \<Rightarrow> Matrix \<Rightarrow> jsnum list \<Rightarrow> nat \<Rightarrow> jsnum list \<Rightarrow> error + jsnum list" where
  "forward_step E this b i sol =
     bindE (getElement this (int i) (int i)) (\<lambda>currentDiag.
       if is_zero currentDiag
       then Inl (MatrixError ''Unsolvable system: zero on diagonal'' 814)
       else
         bindE (foldE (\<lambda>j sum. bindE (getElement this (int i) (int j))
                                  (\<lambda>a. Inr (nadd E sum (nmul E (arr_get sol j) a))))
                  [0..<i] (Fin 0))
           (\<lambda>sum. Inr (arr_set sol i (ndiv E (nsub E (arr_get b i) sum) currentDiag))))"

definition forwardSubstitution :: "env \<Rightarrow> Matrix \<Rightarrow> jsnum list \<Rightarrow> error + jsnum list" where
  "forwardSubstitution E this b =
     bindE (isLowerTriangular this) (\<lambda>lower.
       if \<not> lower then Inl (MatrixError ''Matrix is not lower triangular'' 816)
       else foldE (forward_step E this b) [0..<rows this] [])"

text \<open>\<^verbatim>\<open>invertLower\<close> fills \<^verbatim>\<open>invertedMatrixElements\<close> from its first index up.\<close>

definition invertLower :: "env \<Rightarrow> Matrix \<Rightarrow> error + Matrix" where
  "invertLower E this =
     (if \<not> isSquare this
      then Inl (MatrixError ''Uninvertable matrix: not a square matrix'' 812)
      else
        bindE (isLowerTriangular this) (\<lambda>lower.
          if \<not> lower then Inl (MatrixError ''Matrix is not lower triangular'' 815)
          else
            bindE (identity E (int (rows this))) (\<lambda>identityMatrix.
              bindE (foldE (\<lambda>i inverted.
                              bindE (getRow identityMatrix (int i)) (\<lambda>row.
                                bindE (forwardSubstitution E this row) (\<lambda>sol. Inr (inverted @ [sol]))))
                       [0..<rows this] [])
                (\<lambda>invertedMatrixElements.
                   bindE (Matrix_of_rows E invertedMatrixElements)
                     (\<lambda>m. Inr (transposeM E m))))))"

section \<open>Orthogonalisation\<close>

definition dot :: "env \<Rightarrow> jsnum list \<Rightarrow> jsnum list \<Rightarrow> jsnum" where
  "dot E vector1 vector2 =
     fold (\<lambda>i dotProduct. nadd E dotProduct (nmul E (arr_get vector1 i) (arr_get vector2 i)))
       [0..<length vector1] (Fin 0)"

text \<open>\<^verbatim>\<open>xs.reduce((acc, x) => acc + x)\<close>, which throws a \<^verbatim>\<open>TypeError\<close> on an empty
  array.\<close>

definition reduce_add :: "env \<Rightarrow> jsnum list \<Rightarrow> error + jsnum" where
  "reduce_add E xs =
     (case xs of
        [] \<Rightarrow> Inl (Error ''TypeError: Reduce of empty array with no initial value'')
      | x # xs' \<Rightarrow> Inr (fold (\<lambda>x acc. nadd E acc x) xs' x))"

definition normalize :: "env \<Rightarrow> jsnum list \<Rightarrow> error + jsnum list" where
  "normalize E vector1 =
     bindE (reduce_add E (map (nsquare E) vector1)) (\<lambda>s.
       let scalar = ndiv E (Fin 1) (nsqrt E s)
       in Inr (map (\<lambda>entry. nmul E entry scalar) vector1))"

text \<open>
  The body of the inner loop of \<^verbatim>\<open>gramSmith\<close>: the projection of column \<open>i\<close> onto the
  orthogonal vector \<open>j\<close> is subtracted. The array \<^verbatim>\<open>orthogonalColumns\<close> has \<open>i\<close>
  elements when column \<open>i\<close> is treated, so \<^verbatim>\<open>orthogonalColumns[j]\<close> is read within its
  bounds.
\<close>

definition gramSmith_project ::
  "env \<Rightarrow> Matrix \<Rightarrow> jsnum list list \<Rightarrow> nat \<Rightarrow> nat \<Rightarrow> jsnum list \<Rightarrow> error + jsnum list" where
  "gramSmith_project E this orthogonalColumns i j orthogonalProjection =
     bindE (getColumn this (int i)) (\<lambda>v.
       let u = orthogonalColumns ! j;
           uv = dot E u v;
           uu = dot E u u;
           scalar = ndiv E uv uu;
           projectionOf_I_onto_J = map (\<lambda>entry. nmul E entry scalar) u
       in Inr (map (\<lambda>index. nsub E (orthogonalProjection ! index)
                               (arr_get projectionOf_I_onto_J index))
                 [0..<length orthogonalProjection]))"

text \<open>The body of the outer loop: column \<open>i\<close>.\<close>

definition gramSmith_column ::
  "env \<Rightarrow> Matrix \<Rightarrow> nat \<Rightarrow> jsnum list list \<Rightarrow> error + jsnum list list" where
  "gramSmith_column E this i orthogonalColumns =
     bindE (getColumn this (int i)) (\<lambda>column_i.
       bindE (foldE (gramSmith_project E this orthogonalColumns i) [0..<i] column_i)
         (\<lambda>orthogonalProjection.
            bindE (reduce_add E (map (nsquare E) orthogonalProjection)) (\<lambda>s.
              if nless (nsqrt E s) (Fin (DELTA E))
              then Inl (MatrixError ''Cannot normalize a nearly-zero column. The given columns are not linearly independent.'' 704)
              else Inr (orthogonalColumns @ [orthogonalProjection]))))"

definition gramSmith :: "env \<Rightarrow> Matrix \<Rightarrow> error + Matrix" where
  "gramSmith E this =
     bindE (getColumn this 0) (\<lambda>column0.
       bindE (foldE (gramSmith_column E this) [1..<columns this] [column0])
         (\<lambda>orthogonalColumns.
            bindE (foldE (\<lambda>column normalized. bindE (normalize E column) (\<lambda>n. Inr (normalized @ [n])))
                     orthogonalColumns [])
              (\<lambda>normalizedColumns.
                 let transposedArray =
                       map (\<lambda>colIndex. map (\<lambda>row. arr_get row colIndex) normalizedColumns)
                         [0..<length (normalizedColumns ! 0)]
                 in Matrix_of_rows E transposedArray)))"

text \<open>
  \<^verbatim>\<open>QRDecomposition\<close> returns \<open>Q\<close> and \<open>R\<close>. Between computing them and returning them
  the source calls \<^verbatim>\<open>MatrixUtils.roundMatrixToZero(this)\<close> as a statement and drops its
  value. That helper is not part of the sources at hand, so what the call does to the
  receiver is not modelled: the definition gives the pair that is returned when the call
  returns. \<open>Q\<close> and \<open>R\<close> are computed before the call and have storage of their own.
\<close>

definition QRDecomposition :: "env \<Rightarrow> Matrix \<Rightarrow> error + (Matrix \<times> Matrix)" where
  "QRDecomposition E this =
     bindE (gramSmith E this) (\<lambda>Q.
       let QT = transposeM E Q
       in bindE (naiveMultiply E QT this) (\<lambda>R. Inr (Q, R)))"

section \<open>The invariants of the data model\<close>

text \<open>
  The storage has one value for every entry; the stored values are single-precision
  values (a \<^verbatim>\<open>Float32Array\<close> holds nothing else), none of them \<^verbatim>\<open>NaN\<close>; the
  flags compare the rows with the columns; the shape label prints the dimensions.
\<close>

definition buffer_ok :: "Matrix \<Rightarrow> bool" where
  "buffer_ok m = (length (mElements m) = rows m * columns m)"

text \<open>The value stored for the entry in row \<open>i\<close> and column \<open>j\<close>.\<close>

definition entry :: "Matrix \<Rightarrow> nat \<Rightarrow> nat \<Rightarrow> jsnum" where
  "entry m i j = mElements m ! (i * columns m + j)"

text \<open>
  The sum \<^verbatim>\<open>naiveMultiply\<close> stores for the entry in row \<open>i\<close> and column \<open>j\<close> of
  the product: the terms \<open>u = 0, \<dots>, columns - 1\<close> in this order, the second factor read
  in the storage of the transpose of \<open>B\<close> from the offset \<open>j * min columns 16\<close>.
\<close>

definition naive_dot :: "env \<Rightarrow> Matrix \<Rightarrow> Matrix \<Rightarrow> nat \<Rightarrow> nat \<Rightarrow> jsnum" where
  "naive_dot E A B i j =
     fold (\<lambda>u s. nadd E s (nmul E (f32_get (mElements A) (i * columns A + u))
                                  (f32_get (mElements (transposeM E B)) (j * min (columns A) 16 + u))))
       [0..<columns A] (Fin 0)"


definition f32_values :: "env \<Rightarrow> Matrix \<Rightarrow> bool" where
  "f32_values E m = list_all (\<lambda>v. fround E v = v) (mElements m)"

definition no_NaN :: "Matrix \<Rightarrow> bool" where
  "no_NaN m = list_all (\<lambda>v. \<not> isNaN v) (mElements m)"

definition all_finite :: "Matrix \<Rightarrow> bool" where
  "all_finite m = list_all (\<lambda>v. case v of Fin x \<Rightarrow> True | _ \<Rightarrow> False) (mElements m)"

definition one_flag :: "Matrix \<Rightarrow> bool" where
  "one_flag m = ((isSquare m \<and> \<not> isTall m \<and> \<not> isWide m) \<or>
                 (\<not> isSquare m \<and> isTall m \<and> \<not> isWide m) \<or>
                 (\<not> isSquare m \<and> \<not> isTall m \<and> isWide m))"

definition flags_ok :: "Matrix \<Rightarrow> bool" where
  "flags_ok m = (isSquare m = (rows m = columns m) \<and> isTall m = (rows m > columns m) \<and>
                 isWide m = (columns m > rows m))"

definition shape_ok :: "Matrix \<Rightarrow> bool" where
  "shape_ok m = (updateShape m = m)"

text \<open>A square matrix of dimension \<open>h\<close> with all these properties.\<close>

definition square_ok :: "nat \<Rightarrow> Matrix \<Rightarrow> bool" where
  "square_ok h m = (buffer_ok m \<and> no_NaN m \<and> one_flag m \<and> flags_ok m \<and> shape_ok m \<and>
                    rows m = h \<and> columns m = h)"

section \<open>An environment and matrices for examples\<close>

text \<open>
  In \<open>exact_env\<close> every real up to the largest finite value is representable: the
  roundings are the identity, and the largest finite values are those of the IEEE-754
  double and single formats. It agrees with the IEEE arithmetic on every computation
  whose values are all representable in single precision, as are the small integers and
  the powers of two of the examples below. Its tolerance is \<open>10\<^sup>-\<^sup>7\<close>.
\<close>

definition exact_env :: env where
  "exact_env = \<lparr>round64 = (\<lambda>x. x), max64 = (2 - 1 / 2 ^ 52) * 2 ^ 1023,
                 round32 = (\<lambda>x. x), max32 = (2 - 1 / 2 ^ 23) * 2 ^ 127,
                 DELTA = 1 / 10 ^ 7\<rparr>"


definition example_B :: "jsnum list list" where
  "example_B = [[Fin 5, Fin 6], [Fin 7, Fin 8]]"

definition matrix_A :: Matrix where
  "matrix_A = \<lparr>shape = ''(2,2)'', isSquare = True, isTall = False, isWide = False,
                rows = 2, columns = 2, sizeM = 4, mElements = [Fin 1, Fin 2, Fin 3, Fin 4]\<rparr>"

definition matrix_B :: Matrix where
  "matrix_B = \<lparr>shape = ''(2,2)'', isSquare = True, isTall = False, isWide = False,
                rows = 2, columns = 2, sizeM = 4, mElements = [Fin 5, Fin 6, Fin 7, Fin 8]\<rparr>"

definition matrix_C :: Matrix where
  "matrix_C = \<lparr>shape = ''(2,3)'', isSquare = False, isTall = False, isWide = True,
                rows = 2, columns = 3, sizeM = 6,
                mElements = [Fin 1, Fin 2, Fin 3, Fin 4, Fin 5, Fin 6]\<rparr>"

definition matrix_Inf :: Matrix where
  "matrix_Inf = \<lparr>shape = ''(1,1)'', isSquare = True, isTall = False, isWide = False,
                  rows = 1, columns = 1, sizeM = 1, mElements = [PInf]\<rparr>"

definition matrix_short :: Matrix where
  "matrix_short = \<lparr>shape = ''(2,2)'', isSquare = True, isTall = False, isWide = False,
                    rows = 2, columns = 2, sizeM = 4, mElements = [Fin 1, Fin 2, Fin 3]\<rparr>"



definition matrix_D :: Matrix where
  "matrix_D = \<lparr>shape = ''(3,2)'', isSquare = False, isTall = True, isWide = False,
                rows = 3, columns = 2, sizeM = 6,
                mElements = [Fin 1, Fin 2, Fin 3, Fin 4, Fin 5, Fin 6]\<rparr>"

text \<open>The matrix \<^verbatim>\<open>new Matrix(new Float32Array([1, 2, 3, 4]), 2, 3)\<close>: four values stored
  for six entries.\<close>

definition matrix_P :: Matrix where
  "matrix_P = \<lparr>shape = ''(2,3)'', isSquare = False, isTall = False, isWide = True,
                rows = 2, columns = 3, sizeM = 6, mElements = [Fin 1, Fin 2, Fin 3, Fin 4]\<rparr>"

text \<open>The identity matrix of dimension \<open>n\<close>, as \<^verbatim>\<open>identity\<close> returns it.\<close>

definition idm :: "nat \<Rightarrow> Matrix" where
  "idm n = updateMatrix (fresh n n (concat (identity_entries n)))"

definition matrix_W :: Matrix where
  "matrix_W = \<lparr>shape = ''(1,2)'', isSquare = False, isTall = False, isWide = True,
                rows = 1, columns = 2, sizeM = 2, mElements = [Fin 0, Fin 1]\<rparr>"

definition matrix_N :: Matrix where
  "matrix_N = \<lparr>shape = ''(2,2)'', isSquare = True, isTall = False, isWide = False,
                rows = 2, columns = 2, sizeM = 4, mElements = [Fin 0, Fin 1, Fin 0, Fin 2]\<rparr>"


text \<open>The multiple \<open>a\<close> of the identity matrix of dimension \<open>n\<close>.\<close>

definition sid :: "nat \<Rightarrow> real \<Rightarrow> Matrix" where
  "sid n a = updateMatrix (fresh n n (map (\<lambda>k. if k div n = k mod n then Fin a else Fin 0) [0..<n * n]))"

section \<open>Evaluation\<close>

text \<open>Values of magnitude at most \<open>2 ^ 24\<close> do not overflow.\<close>

lemma mk64_exact [simp]:
  "- 16777216 \<le> x \<Longrightarrow> x \<le> 16777216 \<Longrightarrow> mk64 exact_env x = Fin x"
proof -
  assume a: "- 16777216 \<le> x" "x \<le> 16777216"
  have "(16777216::real) \<le> (2 - 1 / 2 ^ 52) * 2 ^ 1023" by simp
  with a show ?thesis by (simp add: mk64_def exact_env_def)
qed

lemma mk32_exact [simp]:
  "- 16777216 \<le> x \<Longrightarrow> x \<le> 16777216 \<Longrightarrow> mk32 exact_env x = Fin x"
proof -
  assume a: "- 16777216 \<le> x" "x \<le> 16777216"
  have "(16777216::real) \<le> (2 - 1 / 2 ^ 23) * 2 ^ 127" by simp
  with a show ?thesis by (simp add: mk32_def exact_env_def)
qed

lemma replicate_numeral_eval: "replicate (numeral k) x = x # replicate (pred_numeral k) x"
  by (simp add: numeral_eq_Suc)

lemmas eval_simps =
  Matrix_of_rows_def validateMatrixEntries_def Matrix_of_buffer_def new_Matrix_def
  updateMatrix_def updateShape_def updateSpecification_def fresh_def bindE_def
  f32_new_def f32_get_def f32_set_def arr_get_def arr_set_def
  isNaN_def typeof_number_def is_zero_def Let_def string_of_nat.simps digit_def

lemma bindE_simps: "bindE (Inr x) f = f x" "bindE (Inl e) f = Inl e"
  by (simp_all add: bindE_def)



lemma matrix_B_constructed: "Matrix_of_rows exact_env example_B = Inr matrix_B"
  by (simp add: eval_simps example_B_def matrix_B_def upt_rec)

lemma matrix_C_constructed:
  "Matrix_of_rows exact_env [[Fin 1, Fin 2, Fin 3], [Fin 4, Fin 5, Fin 6]] = Inr matrix_C"
  by (simp add: eval_simps matrix_C_def upt_rec)

lemma matrix_D_constructed:
  "Matrix_of_rows exact_env [[Fin 1, Fin 2], [Fin 3, Fin 4], [Fin 5, Fin 6]] = Inr matrix_D"
  by (simp add: eval_simps matrix_D_def upt_rec)

section \<open>Element access\<close>

text \<open>
  C2, at the inputs where the code leaves it. \<open>matrix_A\<close> is the 2 by 2 matrix
  \<open>[[1,2],[3,4]]\<close>, \<open>matrix_C\<close> the 2 by 3 matrix \<open>[[1,2,3],[4,5,6]]\<close> and
  \<open>matrix_D\<close> the 3 by 2 matrix \<open>[[1,2],[3,4],[5,6]]\<close>. \<^verbatim>\<open>getElement(5,5)\<close> throws,
  but \<^verbatim>\<open>getElement(0,3)\<close>, whose column is out of range, returns the entry (1,1), and
  \<^verbatim>\<open>getElement(2,0)\<close>, whose row is out of range, returns \<^verbatim>\<open>undefined\<close>:
  the test is \<^verbatim>\<open>index > this.size\<close> on the flat index. \<^verbatim>\<open>getColumn\<close> compares the
  column index with the number of rows: it throws for column 2 of \<open>matrix_C\<close>, which
  exists, and returns \<open>[3, 5, undefined]\<close> for column 2 of \<open>matrix_D\<close>, which does not.
\<close>

theorem access_bounds_evaluation:
  "getElement matrix_A 5 5 = Inl (MatrixError ''Index out of bounds'' 800) \<and>
   getElement matrix_A 0 3 = Inr (Fin 4) \<and>
   getElement matrix_A 2 0 = Inr Undefined \<and>
   getColumn matrix_C 2 = Inl (MatrixError ''Row index out of bounds'' 800) \<and>
   getColumn matrix_D 2 = Inr [Fin 3, Fin 5, Undefined]"
  by (simp add: getElement_def getColumn_def getColumn_loop.simps matrix_A_def matrix_C_def
        matrix_D_def eval_simps)


section \<open>The parallel addition\<close>

lemma fold_concat: "fold f (concat xss) s = fold (\<lambda>xs. fold f xs) xss s"
  by (induction xss arbitrary: s) auto

lemma chunks_concat:
  "concat (map (\<lambda>i. [i * cs ..< min (i * cs + cs) n]) [0..<k]) = [0 ..< min (k * cs) n]"
proof (induction k)
  case 0
  then show ?case by simp
next
  case (Suc k)
  have "[0 ..< min (k * cs) n] @ [k * cs ..< min (k * cs + cs) n] = [0 ..< min (Suc k * cs) n]"
  proof (cases "k * cs \<le> n")
    case True
    then have "min (k * cs) n = k * cs" by simp
    moreover have "[0..<k * cs] @ [k * cs..<min (k * cs + cs) n] = [0..<min (k * cs + cs) n]"
      using True by (metis le_add1 min.boundedI upt_add_eq_append zero_le le_Suc_ex)
    ultimately show ?thesis by (simp add: add.commute)
  next
    case False
    then show ?thesis by (simp add: min_def)
  qed
  with Suc show ?case by simp
qed

lemma ceil_chunk: "0 < p \<Longrightarrow> n \<le> p * nat \<lceil>real n / real p\<rceil>"
proof -
  assume p: "0 < p"
  have nonneg: "0 \<le> \<lceil>real n / real p\<rceil>"
    by (simp add: zero_le_ceiling) (smt (verit) divide_nonneg_nonneg of_nat_0_le_iff)
  have "real n / real p \<le> of_int \<lceil>real n / real p\<rceil>"
    by (rule le_of_int_ceiling)
  then have "real n \<le> of_int \<lceil>real n / real p\<rceil> * real p"
    using p by (subst (asm) pos_divide_le_eq) simp_all
  then have "real n \<le> real p * of_int \<lceil>real n / real p\<rceil>"
    by (simp only: mult.commute)
  also have "of_int \<lceil>real n / real p\<rceil> = real (nat \<lceil>real n / real p\<rceil>)"
    using nonneg by simp
  finally have "real n \<le> real (p * nat \<lceil>real n / real p\<rceil>)" by simp
  then show ?thesis by (simp only: of_nat_le_iff)
qed

text \<open>
  C8. On a host with at least one processor, \<^verbatim>\<open>addasync\<close> returns what \<^verbatim>\<open>add\<close>
  returns, for every pair of operands and every rounding: the same matrix, element for
  element, or the same error. The chunks \<open>[i * chunkSize, min (i * chunkSize + chunkSize)
  size)\<close> are contiguous and disjoint and cover \<open>[0, size)\<close>, and the source adds them
  one after the other.
\<close>

theorem addasync_eq_add: "0 < numProcessors \<Longrightarrow> addasync E numProcessors A B = add E A B"
proof -
  assume p: "0 < numProcessors"
  define cs where "cs = nat \<lceil>real (sizeM A) / real numProcessors\<rceil>"
  have cover: "min (numProcessors * cs) (sizeM A) = sizeM A"
    using ceil_chunk[OF p, of "sizeM A"] by (simp add: cs_def)
  have "fold (\<lambda>i res. fold (add_at E (mElements B)) [i * cs ..< min (i * cs + cs) (sizeM A)] res)
          [0..<numProcessors] (mElements A)
        = fold (add_at E (mElements B)) [0..<sizeM A] (mElements A)"
    using fold_concat[of "add_at E (mElements B)" "map (\<lambda>i. [i * cs ..< min (i * cs + cs) (sizeM A)]) [0..<numProcessors]" "mElements A"]
    by (simp add: chunks_concat cover fold_map comp_def)
  then show ?thesis
    by (simp add: addasync_def add_def Let_def cs_def)
qed

theorem addasync_eq_add_witness:
  "addasync exact_env 3 matrix_A matrix_B =
     Inr (matrix_A\<lparr>mElements := [Fin 6, Fin 8, Fin 10, Fin 12]\<rparr>)"
proof -
  have "add exact_env matrix_A matrix_B = Inr (matrix_A\<lparr>mElements := [Fin 6, Fin 8, Fin 10, Fin 12]\<rparr>)"
    by (simp add: add_def add_at_def eval_simps matrix_A_def matrix_B_def upt_rec)
  then show ?thesis
    using addasync_eq_add [of 3 exact_env matrix_A matrix_B] by simp
qed

section \<open>Transposition\<close>

lemma f32_set_update: "f32_set E a i v = a[i := fround E v]"
  by (simp add: f32_set_def list_update_beyond)

lemma fold_fold_product:
  "fold (\<lambda>i a. fold (\<lambda>j a. g i j a) ys a) xs a = fold (\<lambda>(i, j). g i j) (List.product xs ys) a"
proof (induction xs arbitrary: a)
  case Nil
  then show ?case by simp
next
  case (Cons x xs)
  show ?case
    by (simp add: Cons fold_map comp_def)
qed

lemma fold_update_other:
  "k \<notin> idx ` set ps \<Longrightarrow> fold (\<lambda>p a. a[idx p := val p]) ps a ! k = a ! k"
  by (induction ps arbitrary: a) auto

lemma fold_update_length [simp]:
  "length (fold (\<lambda>p a. a[idx p := val p]) ps a) = length a"
  by (induction ps arbitrary: a) auto

lemma fold_update_nth:
  "distinct (map idx ps) \<Longrightarrow> p \<in> set ps \<Longrightarrow> idx p < length a \<Longrightarrow>
   fold (\<lambda>p a. a[idx p := val p]) ps a ! idx p = val p"
proof (induction ps arbitrary: a)
  case Nil
  then show ?case by simp
next
  case (Cons q qs)
  show ?case
  proof (cases "p = q")
    case True
    with Cons.prems have "idx p \<notin> idx ` set qs" by auto
    then have "fold (\<lambda>p a. a[idx p := val p]) qs (a[idx q := val q]) ! idx p = a[idx q := val q] ! idx p"
      by (rule fold_update_other)
    with True Cons.prems show ?thesis by simp
  next
    case False
    with Cons.prems have "p \<in> set qs" "distinct (map idx qs)" by auto
    then show ?thesis using Cons.IH[of "a[idx q := val q]"] Cons.prems by simp
  qed
qed

lemma idx_inj: "i < r \<Longrightarrow> i' < r \<Longrightarrow> j * r + i = j' * r + i' \<Longrightarrow> i = i' \<and> j = (j'::nat)"
proof -
  assume a: "i < r" "i' < r" and e: "j * r + i = j' * r + i'"
  have "(j * r + i) mod r = i" "(j' * r + i') mod r = i'" using a by simp_all
  then have i: "i = i'" by (simp only: e)
  have "(j * r + i) div r = j" "(j' * r + i') div r = j'" using a by simp_all
  then have "j = j'" by (simp only: e)
  with i show ?thesis by simp
qed

lemma product_idx_distinct:
  "distinct (map (\<lambda>(i, j). j * r + i) (List.product [0..<r] [0..<c]))"
proof -
  have "inj_on (\<lambda>(i, j). j * r + i) (set (List.product [0..<r] [0..<c]))"
    by (auto simp: inj_on_def dest: idx_inj)
  then show ?thesis by (simp add: distinct_map distinct_product)
qed

lemma transpose_loop_length [simp]: "length (transpose_loop E r c src src) = length src"
  by (simp add: transpose_loop_def fold_fold_product f32_set_update case_prod_unfold)

lemma transpose_loop_nth:
  assumes len: "length src = r * c" and i: "i < r" and j: "j < c"
  shows "transpose_loop E r c src src ! (j * r + i) = fround E (src ! (i * c + j))"
proof -
  let ?idx = "\<lambda>p::nat \<times> nat. snd p * r + fst p"
  let ?val = "\<lambda>p::nat \<times> nat. fround E (f32_get src (fst p * c + snd p))"
  have eq: "transpose_loop E r c src src = fold (\<lambda>p a. a[?idx p := ?val p]) (List.product [0..<r] [0..<c]) src"
    by (simp add: transpose_loop_def fold_fold_product f32_set_update case_prod_unfold)
  have d: "distinct (map ?idx (List.product [0..<r] [0..<c]))"
    using product_idx_distinct[of r c] by (simp add: case_prod_unfold)
  have mem: "(i, j) \<in> set (List.product [0..<r] [0..<c])" using i j by simp
  have "j * r + i < r * c"
  proof -
    have "j * r + i < j * r + r" using i by simp
    also have "\<dots> = (j + 1) * r" by simp
    also have "\<dots> \<le> c * r" using j by (intro mult_le_mono1) simp
    finally show ?thesis by (simp add: mult.commute)
  qed
  then have lt: "?idx (i, j) < length src" using len by simp
  have "i * c + j < r * c"
  proof -
    have "i * c + j < i * c + c" using j by simp
    also have "\<dots> = (i + 1) * c" by simp
    also have "\<dots> \<le> r * c" using i by (intro mult_le_mono1) simp
    finally show ?thesis .
  qed
  then have "f32_get src (i * c + j) = src ! (i * c + j)" using len by (simp add: f32_get_def)
  with fold_update_nth[of ?idx _ "(i, j)" src ?val, OF d mem lt] show ?thesis
    by (simp add: eq)
qed


lemma index_bound: "i < r \<Longrightarrow> j < c \<Longrightarrow> i * c + j < r * (c::nat)"
proof -
  assume i: "i < r" and j: "j < c"
  have "i * c + j < i * c + c" using j by simp
  also have "\<dots> = (i + 1) * c" by simp
  also have "\<dots> \<le> r * c" using i by (intro mult_le_mono1) simp
  finally show ?thesis .
qed

lemma transpose_loop_eq:
  assumes len: "length src = r * c"
  shows "transpose_loop E r c src src = map (\<lambda>k. fround E (src ! ((k mod r) * c + k div r))) [0..<r * c]"
proof (rule nth_equalityI)
  show "length (transpose_loop E r c src src) = length (map (\<lambda>k. fround E (src ! ((k mod r) * c + k div r))) [0..<r * c])"
    using len by simp
next
  fix k assume "k < length (transpose_loop E r c src src)"
  then have k: "k < r * c" using len by simp
  then have r: "0 < r" by (cases r) simp_all
  have i: "k mod r < r" using r by simp
  have j: "k div r < c" using k by (simp add: less_mult_imp_div_less mult.commute)
  have "transpose_loop E r c src src ! ((k div r) * r + k mod r) = fround E (src ! ((k mod r) * c + k div r))"
    using transpose_loop_nth[OF len i j] .
  then show "transpose_loop E r c src src ! k = map (\<lambda>k. fround E (src ! ((k mod r) * c + k div r))) [0..<r * c] ! k"
    using k by simp
qed


lemma transposeM_fields:
  "rows (transposeM E A) = columns A"
  "columns (transposeM E A) = rows A"
  "sizeM (transposeM E A) = sizeM A"
  "isSquare (transposeM E A) = isSquare A"
  "isTall (transposeM E A) = (if isTall A then False else if isWide A then True else False)"
  "isWide (transposeM E A) = (if isTall A then True else if isWide A then False else False)"
  "mElements (transposeM E A) = transpose_loop E (rows A) (columns A) (mElements A) (mElements A)"
  "shape (transposeM E A) = ''('' @ string_of_nat (columns A) @ '','' @ string_of_nat (rows A) @ '')''"
  "Matrix.more (transposeM E A) = Matrix.more A"
  by (simp_all add: transposeM_def clone_def Let_def updateShape_def)

lemma matrix_P_constructed:
  "Matrix_of_buffer [Fin 1, Fin 2, Fin 3, Fin 4] (Some 2) (Some 3) = Inr matrix_P"
  by (simp add: eval_simps matrix_P_def)

lemma transposeM_P:
  "mElements (transposeM exact_env matrix_P) = [Fin 1, Fin 4, Fin 2, NaN]"
  by (simp add: transposeM_fields transpose_loop_def matrix_P_def eval_simps upt_rec)





section \<open>The invariants at construction\<close>

lemma idx_inj_row: "j < n \<Longrightarrow> j' < n \<Longrightarrow> i * n + j = i' * n + j' \<Longrightarrow> i = i' \<and> j = (j'::nat)"
  using idx_inj[of j n j' i i'] by simp

lemma product_idx_distinct_row:
  "distinct (map (\<lambda>(i, j). i * n + j) (List.product [0..<r] [0..<n]))"
proof -
  have "inj_on (\<lambda>(i, j). i * n + j) (set (List.product [0..<r] [0..<n]))"
    by (auto simp: inj_on_def dest: idx_inj_row)
  then show ?thesis by (simp add: distinct_map distinct_product)
qed

lemma fround_not_NaN: "\<not> isNaN v \<Longrightarrow> \<not> isNaN (fround E v)"
  by (cases v) (simp_all add: isNaN_def mk32_def Let_def)

lemma fill_nth:
  assumes i: "i < r" and j: "j < n"
  shows "fold (\<lambda>i a. fold (\<lambda>j a. f32_set E a (i * n + j) (val i j)) [0..<n] a) [0..<r] (f32_new (r * n)) ! (i * n + j)
         = fround E (val i j)"
proof -
  let ?idx = "\<lambda>p::nat \<times> nat. fst p * n + snd p"
  let ?val = "\<lambda>p::nat \<times> nat. fround E (val (fst p) (snd p))"
  have eq: "fold (\<lambda>i a. fold (\<lambda>j a. f32_set E a (i * n + j) (val i j)) [0..<n] a) [0..<r] (f32_new (r * n))
            = fold (\<lambda>p a. a[?idx p := ?val p]) (List.product [0..<r] [0..<n]) (f32_new (r * n))"
    by (simp add: fold_fold_product f32_set_update case_prod_unfold)
  have d: "distinct (map ?idx (List.product [0..<r] [0..<n]))"
    using product_idx_distinct_row[of n r] by (simp add: case_prod_unfold)
  have mem: "(i, j) \<in> set (List.product [0..<r] [0..<n])" using i j by simp
  have lt: "?idx (i, j) < length (f32_new (r * n))"
    using index_bound[OF i j] by (simp add: f32_new_def)
  from fold_update_nth[of ?idx _ "(i, j)" "f32_new (r * n)" ?val, OF d mem lt] show ?thesis
    by (simp add: eq)
qed

lemma fill_length:
  "length (fold (\<lambda>i a. fold (\<lambda>j a. f32_set E a (i * n + j) (val i j)) [0..<n] a) [0..<r] (f32_new (r * n))) = r * n"
  by (simp add: fold_fold_product f32_set_update case_prod_unfold f32_new_def)

lemma updateMatrix_fresh_inv:
  "one_flag (updateMatrix (fresh r c els))" "flags_ok (updateMatrix (fresh r c els))"
  "shape_ok (updateMatrix (fresh r c els))"
  "mElements (updateMatrix (fresh r c els)) = els"
  "rows (updateMatrix (fresh r c els)) = r" "columns (updateMatrix (fresh r c els)) = c"
  "sizeM (updateMatrix (fresh r c els)) = r * c"
  by (auto simp: one_flag_def flags_ok_def shape_ok_def updateMatrix_def updateShape_def
        updateSpecification_def fresh_def)

lemma validateFloatArray_ok: "validateFloatArray buf = Inr u \<Longrightarrow> list_all (\<lambda>v. \<not> isNaN v) buf"
  by (induction buf) (auto split: if_splits)

lemma Matrix_of_rows_Inr:
  assumes "Matrix_of_rows E entries = Inr m"
  shows "buffer_ok m \<and> no_NaN m \<and> one_flag m \<and> flags_ok m \<and> shape_ok m \<and>
         rows m = length entries \<and> columns m = length (entries ! 0) \<and> 0 < rows m \<and> 0 < columns m"
proof -
  let ?r = "length entries" and ?n = "length (entries ! 0)"
  let ?els = "fold (\<lambda>i a. fold (\<lambda>j a. f32_set E a (i * ?n + j) (arr_get (entries ! i) j)) [0..<?n] a)
                [0..<?r] (f32_new (?r * ?n))"
  from assms have v: "validateMatrixEntries entries" and m: "m = updateMatrix (fresh ?r ?n ?els)"
    by (auto simp: Matrix_of_rows_def Let_def split: if_splits)
  from v have r: "0 < ?r" and n: "0 < ?n"
    and rowsok: "list_all (\<lambda>row. length row = ?n \<and> list_all (\<lambda>v. typeof_number v \<and> \<not> isNaN v) row) entries"
    by (auto simp: validateMatrixEntries_def Let_def split: if_splits)
  have "\<not> isNaN (?els ! k)" if k: "k < ?r * ?n" for k
  proof -
    have i: "k div ?n < ?r" using k by (simp add: less_mult_imp_div_less)
    have j: "k mod ?n < ?n" using n by simp
    have "?els ! (k div ?n * ?n + k mod ?n) = fround E (arr_get (entries ! (k div ?n)) (k mod ?n))"
      using fill_nth[OF i j, of E "\<lambda>i j. arr_get (entries ! i) j"] .
    moreover have "\<not> isNaN (arr_get (entries ! (k div ?n)) (k mod ?n))"
      using rowsok i j by (simp add: list_all_length arr_get_def)
    ultimately show ?thesis by (simp add: fround_not_NaN)
  qed
  then have "list_all (\<lambda>v. \<not> isNaN v) ?els"
    by (simp add: list_all_length fill_length)
  then show ?thesis
    using r n by (simp add: m updateMatrix_fresh_inv buffer_ok_def no_NaN_def fill_length)
qed

lemma Matrix_of_buffer_Inr:
  assumes "Matrix_of_buffer buf r c = Inr m"
  shows "no_NaN m \<and> one_flag m \<and> flags_ok m \<and> shape_ok m \<and> mElements m = buf \<and>
         r = Some (int (rows m)) \<and> c = Some (int (columns m)) \<and> 0 < rows m \<and> 0 < columns m \<and>
         sizeM m = rows m * columns m"
proof -
  from assms obtain r' c' where rc: "r = Some r'" "c = Some c'" "0 < r'" "0 < c'"
    and v: "validateFloatArray buf = Inr ()" and m: "m = updateMatrix (fresh (nat r') (nat c') buf)"
    by (auto simp: Matrix_of_buffer_def bindE_def split: option.splits if_splits sum.splits)
  from v have "list_all (\<lambda>v. \<not> isNaN v) buf" by (rule validateFloatArray_ok)
  then show ?thesis
    using rc by (simp add: m updateMatrix_fresh_inv no_NaN_def)
qed

section \<open>Back substitution\<close>

lemma foldE_append: "foldE f (xs @ ys) s = bindE (foldE f xs s) (foldE f ys)"
  by (induction xs arbitrary: s) (auto simp: bindE_def split: sum.splits)

lemma getElement_in:
  assumes "buffer_ok A" "sizeM A = rows A * columns A" "i < rows A" "j < columns A"
  shows "getElement A (int i) (int j) = Inr (entry A i j)"
proof -
  have lt: "i * columns A + j < rows A * columns A" using assms(3,4) by (rule index_bound)
  have "int i * int (columns A) + int j = int (i * columns A + j)" by simp
  then show ?thesis
    using lt assms(1,2) unfolding getElement_def Let_def entry_def buffer_ok_def f32_get_def
    by (simp del: of_nat_mult of_nat_add)
qed

lemma isUpperTriangular_loop_eq:
  assumes "buffer_ok A" "sizeM A = rows A * columns A"
    and "\<forall>(i, j)\<in>set ps. i < rows A \<and> j < columns A"
  shows "isUpperTriangular_loop A ps = Inr (list_all (\<lambda>(i, j). is_zero (entry A i j)) ps)"
  using assms(3)
proof (induction ps)
  case Nil
  then show ?case by simp
next
  case (Cons p ps)
  obtain i j where p: "p = (i, j)" by (cases p)
  with Cons.prems have "getElement A (int i) (int j) = Inr (entry A i j)"
    using assms(1,2) by (intro getElement_in) simp_all
  with Cons p show ?case by (simp add: bindE_simps)
qed

text \<open>On a square matrix of the data model, \<^verbatim>\<open>isUpperTriangular\<close> holds when every entry
  below the diagonal is zero.\<close>

lemma isUpperTriangular_square:
  assumes "buffer_ok A" "sizeM A = rows A * columns A" "rows A = columns A"
  shows "isUpperTriangular A = Inr (\<forall>i<rows A. \<forall>j<i. entry A i j = Fin 0)"
proof -
  let ?ps = "concat (map (\<lambda>i. map (\<lambda>j. (i, j)) [0..<i]) [1..<columns A])"
  have "\<forall>(i, j)\<in>set ?ps. i < rows A \<and> j < columns A" using assms(3) by auto
  from isUpperTriangular_loop_eq[OF assms(1,2) this]
  have "isUpperTriangular A = Inr (list_all (\<lambda>(i, j). is_zero (entry A i j)) ?ps)"
    by (simp add: isUpperTriangular_def)
  moreover have "list_all (\<lambda>(i, j). is_zero (entry A i j)) ?ps = (\<forall>i<rows A. \<forall>j<i. entry A i j = Fin 0)"
    using assms(3) by (auto simp: list_all_iff is_zero_def)
  ultimately show ?thesis by simp
qed











section \<open>Multiplication\<close>

lemma naiveMultiply_blocks_eq:
  "0 < uf \<Longrightarrow>
   naiveMultiply_blocks E a b ra cb c uf k s =
     fold (\<lambda>u s. nadd E s (nmul E (f32_get a (ra + u)) (f32_get b (cb + u)))) [k..<c] s"
proof (induction E a b ra cb c uf k s rule: naiveMultiply_blocks.induct)
  case (1 E a b ra cb c uf k s)
  let ?g = "\<lambda>u s. nadd E s (nmul E (f32_get a (ra + u)) (f32_get b (cb + u)))"
  show ?case
  proof (cases "k < c")
    case True
    have IH: "naiveMultiply_blocks E a b ra cb c uf (k + uf) (fold ?g [k..<min (k + uf) c] s)
              = fold ?g [k + uf..<c] (fold ?g [k..<min (k + uf) c] s)"
      using "1.IH"[OF _ refl refl] True "1.prems" by simp
    have "fold ?g [k + uf..<c] (fold ?g [k..<min (k + uf) c] s) = fold ?g [k..<c] s"
    proof (cases "k + uf \<le> c")
      case True
      then have "[k..<c] = [k..<k + uf] @ [k + uf..<c]"
        by (metis le_add1 le_Suc_ex upt_add_eq_append)
      with True show ?thesis by (simp add: min_def)
    next
      case False
      then show ?thesis by (simp add: min_def)
    qed
    with IH True "1.prems" show ?thesis
      by (subst naiveMultiply_blocks.simps) (simp add: Let_def)
  next
    case False
    then show ?thesis by (subst naiveMultiply_blocks.simps) simp
  qed
qed

lemma validateFloatArray_iff:
  "validateFloatArray buf = (if list_all (\<lambda>v. \<not> isNaN v) buf then Inr ()
                             else Inl (MatrixError ''Invalid Float32Array entries'' 805))"
  by (induction buf) (auto simp: isNaN_def typeof_number_def)

lemma new_Matrix_eq:
  "new_Matrix els r c =
     (if r = 0 \<or> c = 0
      then Inl (MatrixError ''Rows and columns must be defined for Float32Array entries, be of type number and not be 0 or negative'' 804)
      else if list_all (\<lambda>v. \<not> isNaN v) els then Inr (updateMatrix (fresh r c els))
      else Inl (MatrixError ''Invalid Float32Array entries'' 805))"
  by (auto simp: new_Matrix_def Matrix_of_buffer_def validateFloatArray_iff bindE_def)

text \<open>The storage \<^verbatim>\<open>naiveMultiply\<close> fills, before the constructor sees it.\<close>

lemma concat_uniform_length:
  "\<forall>row\<in>set xss. length row = n \<Longrightarrow> length (concat xss) = length xss * n"
  by (induction xss) auto

lemma concat_uniform_nth:
  "\<forall>row\<in>set xss. length row = n \<Longrightarrow> i < length xss \<Longrightarrow> j < n \<Longrightarrow>
   concat xss ! (i * n + j) = xss ! i ! j"
proof (induction xss arbitrary: i)
  case Nil
  then show ?case by simp
next
  case (Cons xs xss)
  show ?case
  proof (cases i)
    case 0
    with Cons.prems show ?thesis by (simp add: nth_append)
  next
    case (Suc i')
    with Cons.prems have "concat xss ! (i' * n + j) = xss ! i' ! j"
      by (intro Cons.IH) simp_all
    with Suc Cons.prems show ?thesis by (simp add: nth_append)
  qed
qed

lemma Matrix_of_rows_eq:
  assumes v: "validateMatrixEntries entries"
  shows "Matrix_of_rows E entries =
           Inr (updateMatrix (fresh (length entries) (length (entries ! 0))
                  (map (fround E) (concat entries))))"
proof -
  let ?r = "length entries" and ?n = "length (entries ! 0)"
  let ?els = "fold (\<lambda>i a. fold (\<lambda>j a. f32_set E a (i * ?n + j) (arr_get (entries ! i) j)) [0..<?n] a)
                [0..<?r] (f32_new (?r * ?n))"
  from v have n: "0 < ?n"
    and rowsok: "list_all (\<lambda>row. length row = ?n \<and> list_all (\<lambda>v. typeof_number v \<and> \<not> isNaN v) row) entries"
    by (auto simp: validateMatrixEntries_def Let_def split: if_splits)
  from rowsok have uni: "\<forall>row\<in>set entries. length row = ?n"
    by (simp add: list_all_iff)
  have "?els = map (fround E) (concat entries)"
  proof (rule nth_equalityI)
    show "length ?els = length (map (fround E) (concat entries))"
      by (simp only: fill_length concat_uniform_length[OF uni] length_map)
  next
    fix k assume "k < length ?els"
    then have k: "k < ?r * ?n" by (simp add: fill_length)
    have i: "k div ?n < ?r" using k by (simp add: less_mult_imp_div_less)
    have j: "k mod ?n < ?n" using n by simp
    have kk: "k div ?n * ?n + k mod ?n = k" by simp
    have "?els ! (k div ?n * ?n + k mod ?n) = fround E (arr_get (entries ! (k div ?n)) (k mod ?n))"
      using fill_nth[OF i j, of E "\<lambda>i j. arr_get (entries ! i) j"] .
    then have e1: "?els ! k = fround E (arr_get (entries ! (k div ?n)) (k mod ?n))"
      by (simp only: kk)
    have "length (entries ! (k div ?n)) = ?n" using uni i by (meson nth_mem)
    then have e2: "arr_get (entries ! (k div ?n)) (k mod ?n) = entries ! (k div ?n) ! (k mod ?n)"
      using j by (simp add: arr_get_def)
    have "concat entries ! (k div ?n * ?n + k mod ?n) = entries ! (k div ?n) ! (k mod ?n)"
      using uni i j by (rule concat_uniform_nth)
    then have e3: "concat entries ! k = entries ! (k div ?n) ! (k mod ?n)"
      by (simp only: kk)
    have e4: "k < length (concat entries)" using k by (simp only: concat_uniform_length[OF uni])
    show "?els ! k = map (fround E) (concat entries) ! k"
      by (simp only: e1 e2 e3 nth_map[OF e4])
  qed
  then have "Inr (updateMatrix (fresh ?r ?n ?els)) =
      (Inr (updateMatrix (fresh ?r ?n (map (fround E) (concat entries)))) :: error + Matrix)"
    by (simp only:)
  moreover have "Matrix_of_rows E entries = Inr (updateMatrix (fresh ?r ?n ?els))"
    unfolding Matrix_of_rows_def Let_def using v by (simp only: not_True_eq_False if_False)
  ultimately show ?thesis by (simp only:)
qed

subsection \<open>The identity matrices\<close>

lemma identity_entries_concat_length [simp]: "length (concat (identity_entries n)) = n * n"
  using concat_uniform_length[of "identity_entries n" n] by (simp add: identity_entries_def)

lemma identity_entries_concat_nth:
  assumes "i < n" "j < n"
  shows "concat (identity_entries n) ! (i * n + j) = (if i = j then Fin 1 else Fin 0)"
proof -
  have "concat (identity_entries n) ! (i * n + j) = identity_entries n ! i ! j"
    using assms by (intro concat_uniform_nth) (simp_all add: identity_entries_def)
  then show ?thesis using assms by (simp add: identity_entries_def)
qed

lemma identity_entries_valid: "0 < n \<Longrightarrow> validateMatrixEntries (identity_entries n)"
  by (simp add: validateMatrixEntries_def identity_entries_def list_all_iff typeof_number_def isNaN_def)

lemma fround_exact_01 [simp]: "fround exact_env (Fin 0) = Fin 0" "fround exact_env (Fin 1) = Fin 1"
  by simp_all

lemma identity_entries_01:
  "v \<in> set (concat (identity_entries n)) \<Longrightarrow> v = Fin 0 \<or> v = Fin 1"
  by (auto simp: identity_entries_def split: if_splits)

lemma identity_entries_fround:
  "map (fround exact_env) (concat (identity_entries n)) = concat (identity_entries n)"
proof (rule map_idI)
  fix v assume "v \<in> set (concat (identity_entries n))"
  then have "v = Fin 0 \<or> v = Fin 1" by (rule identity_entries_01)
  then show "fround exact_env v = v" by auto
qed

lemma identity_exact: "0 < n \<Longrightarrow> identity exact_env (int n) = Inr (idm n)"
  using Matrix_of_rows_eq[OF identity_entries_valid, of n exact_env]
  by (simp add: identity_def idm_def identity_entries_fround) (simp add: identity_entries_def)

lemma idm_fields:
  "rows (idm n) = n" "columns (idm n) = n" "sizeM (idm n) = n * n" "isSquare (idm n)"
  "\<not> isTall (idm n)" "\<not> isWide (idm n)"
  "mElements (idm n) = concat (identity_entries n)"
  by (simp_all add: idm_def updateMatrix_def updateShape_def updateSpecification_def fresh_def)

lemma idm_entry: "i < n \<Longrightarrow> j < n \<Longrightarrow> entry (idm n) i j = (if i = j then Fin 1 else Fin 0)"
  by (simp add: entry_def idm_fields identity_entries_concat_nth)

lemma idm_nth:
  assumes "k < n * n"
  shows "mElements (idm n) ! k = (if k div n = k mod n then Fin 1 else Fin 0)"
proof -
  from assms have n: "0 < n" by (cases n) simp_all
  have "k div n < n" using assms by (simp add: less_mult_imp_div_less)
  moreover have "k mod n < n" using n by simp
  ultimately have "concat (identity_entries n) ! (k div n * n + k mod n) = (if k div n = k mod n then Fin 1 else Fin 0)"
    by (rule identity_entries_concat_nth)
  then show ?thesis by (simp add: idm_fields)
qed

lemma idm_invariants:
  "buffer_ok (idm n)" "f32_values exact_env (idm n)" "flags_ok (idm n)" "shape_ok (idm n)"
proof -
  show "buffer_ok (idm n)" by (simp add: buffer_ok_def idm_fields)
  show "f32_values exact_env (idm n)"
    unfolding f32_values_def list_all_iff idm_fields
  proof
    fix v assume "v \<in> set (concat (identity_entries n))"
    then have "v = Fin 0 \<or> v = Fin 1" by (rule identity_entries_01)
    then show "fround exact_env v = v" by auto
  qed
  show "flags_ok (idm n)" by (simp add: flags_ok_def idm_fields)
  show "shape_ok (idm n)" by (simp add: idm_def updateMatrix_fresh_inv)
qed

lemma transposeM_idm: "transposeM exact_env (idm n) = idm n"
proof (rule Matrix.equality)
  let ?src = "mElements (idm n)"
  have len: "length ?src = n * n" by (simp add: idm_fields)
  have "transpose_loop exact_env n n ?src ?src = ?src"
  proof (rule nth_equalityI)
    show "length (transpose_loop exact_env n n ?src ?src) = length ?src" by simp
  next
    fix k assume "k < length (transpose_loop exact_env n n ?src ?src)"
    then have k: "k < n * n" using len by simp
    then have n: "0 < n" by (cases n) simp_all
    have i: "k mod n < n" using n by simp
    have j: "k div n < n" using k by (simp add: less_mult_imp_div_less)
    have m: "k mod n * n + k div n < n * n" using i j by (rule index_bound)
    have "transpose_loop exact_env n n ?src ?src ! k = fround exact_env (?src ! (k mod n * n + k div n))"
      using k by (simp add: transpose_loop_eq[OF len])
    also have "?src ! (k mod n * n + k div n) = (if k mod n = k div n then Fin 1 else Fin 0)"
      using i j by (simp add: idm_fields identity_entries_concat_nth)
    also have "fround exact_env (if k mod n = k div n then Fin 1 else Fin 0) = ?src ! k"
      using idm_nth[OF k] by auto
    finally show "transpose_loop exact_env n n ?src ?src ! k = ?src ! k" .
  qed
  then show "mElements (transposeM exact_env (idm n)) = mElements (idm n)"
    by (simp add: transposeM_fields idm_fields)
  have "shape (updateShape (idm n)) = shape (idm n)"
    using idm_invariants(4)[of n] by (simp add: shape_ok_def)
  then show "shape (transposeM exact_env (idm n)) = shape (idm n)"
    by (simp add: transposeM_fields idm_fields updateShape_def)
qed (simp_all add: transposeM_fields idm_fields)

subsection \<open>What the naive product computes\<close>

lemma naiveMultiply_blocks_all:
  "naiveMultiply_blocks E a b ra cb c (min c 16) 0 s =
     fold (\<lambda>u s. nadd E s (nmul E (f32_get a (ra + u)) (f32_get b (cb + u)))) [0..<c] s"
proof (cases "c = 0")
  case True
  then show ?thesis by (subst naiveMultiply_blocks.simps) simp
next
  case False
  then have "0 < min c 16" by simp
  then show ?thesis by (rule naiveMultiply_blocks_eq)
qed

lemma naiveMultiply_eq:
  "naiveMultiply E A B =
     (if columns A \<noteq> rows B
      then Inl (MatrixError ''Invalid matrix dimensions for multiplication'' 807)
      else new_Matrix (map (\<lambda>k. fround E (naive_dot E A B (k div columns B) (k mod columns B)))
                         [0..<rows A * columns B])
             (rows A) (columns B))"
proof -
  let ?val = "\<lambda>i j. naiveMultiply_blocks E (mElements A) (mElements (transposeM E B))
                        (i * columns A) (j * min (columns A) 16) (columns A) (min (columns A) 16) 0 (Fin 0)"
  let ?res = "fold (\<lambda>i a. fold (\<lambda>j a. f32_set E a (i * columns B + j) (?val i j)) [0..<columns B] a)
                [0..<rows A] (f32_new (rows A * columns B))"
  have val: "?val i j = naive_dot E A B i j" for i j
    by (simp add: naiveMultiply_blocks_all naive_dot_def)
  have "?res = map (\<lambda>k. fround E (naive_dot E A B (k div columns B) (k mod columns B)))
                 [0..<rows A * columns B]"
  proof (rule nth_equalityI)
    show "length ?res = length (map (\<lambda>k. fround E (naive_dot E A B (k div columns B) (k mod columns B)))
                 [0..<rows A * columns B])"
      by (simp only: fill_length length_map length_upt minus_nat.diff_0)
  next
    fix k assume "k < length ?res"
    then have k: "k < rows A * columns B" by (simp only: fill_length)
    then have c: "0 < columns B" by (cases "columns B") simp_all
    have i: "k div columns B < rows A" using k by (simp add: less_mult_imp_div_less)
    have j: "k mod columns B < columns B" using c by simp
    have kk: "k div columns B * columns B + k mod columns B = k" by simp
    have "?res ! (k div columns B * columns B + k mod columns B)
            = fround E (?val (k div columns B) (k mod columns B))"
      using fill_nth[OF i j, of E ?val] .
    then have "?res ! k = fround E (naive_dot E A B (k div columns B) (k mod columns B))"
      by (simp only: kk val)
    then show "?res ! k = map (\<lambda>k. fround E (naive_dot E A B (k div columns B) (k mod columns B)))
                 [0..<rows A * columns B] ! k"
      using k by simp
  qed
  then have "new_Matrix ?res (rows A) (columns B) =
      new_Matrix (map (\<lambda>k. fround E (naive_dot E A B (k div columns B) (k mod columns B)))
                         [0..<rows A * columns B]) (rows A) (columns B)"
    by (simp only:)
  then show ?thesis
    by (cases "columns A = rows B") (simp_all add: naiveMultiply_def Let_def)
qed

lemma fold_01:
  assumes "\<forall>u\<in>set us. (f u = Fin 0 \<or> f u = Fin 1) \<and> (h u = Fin 0 \<or> h u = Fin 1)"
    and "0 \<le> x" and "x + real (length us) \<le> 16777216"
  shows "\<exists>y. fold (\<lambda>u s. nadd exact_env s (nmul exact_env (f u) (h u))) us (Fin x) = Fin y \<and>
             x \<le> y \<and> y \<le> x + real (length us)"
  using assms
proof (induction us arbitrary: x)
  case Nil
  then show ?case by simp
next
  case (Cons u us)
  from Cons.prems(1) have "nmul exact_env (f u) (h u) = Fin 0 \<or> nmul exact_env (f u) (h u) = Fin 1"
    by auto
  then obtain p where p: "nmul exact_env (f u) (h u) = Fin p" "0 \<le> p" "p \<le> 1" by auto
  have step: "nadd exact_env (Fin x) (Fin p) = Fin (x + p)"
    using p Cons.prems(2,3) by simp
  have "\<exists>y. fold (\<lambda>u s. nadd exact_env s (nmul exact_env (f u) (h u))) us (Fin (x + p)) = Fin y \<and>
             x + p \<le> y \<and> y \<le> x + p + real (length us)"
    using Cons.prems p by (intro Cons.IH) auto
  then show ?case using p step by auto
qed

lemma f32_get_idm:
  "f32_get (mElements (idm n)) k =
     (if k < n * n then (if k div n = k mod n then Fin 1 else Fin 0) else Undefined)"
  using idm_nth[of k n] by (simp add: f32_get_def idm_fields)

lemma naive_dot_idm:
  "naive_dot exact_env (idm n) (idm n) i j =
     fold (\<lambda>u s. nadd exact_env s (nmul exact_env (f32_get (mElements (idm n)) (i * n + u))
                                  (f32_get (mElements (idm n)) (j * min n 16 + u))))
       [0..<n] (Fin 0)"
  by (simp add: naive_dot_def transposeM_idm idm_fields)

lemma naive_dot_idm_fin:
  assumes n: "n \<le> 4096" and i: "i < n" and j: "j < n"
  shows "\<exists>y. naive_dot exact_env (idm n) (idm n) i j = Fin y \<and> 0 \<le> y \<and> y \<le> real n"
proof -
  have r: "\<forall>u\<in>set [0..<n].
      (f32_get (mElements (idm n)) (i * n + u) = Fin 0 \<or> f32_get (mElements (idm n)) (i * n + u) = Fin 1) \<and>
      (f32_get (mElements (idm n)) (j * min n 16 + u) = Fin 0 \<or>
       f32_get (mElements (idm n)) (j * min n 16 + u) = Fin 1)"
  proof
    fix u assume "u \<in> set [0..<n]"
    then have u: "u < n" by simp
    have a: "i * n + u < n * n" using i u by (rule index_bound)
    have "j * min n 16 + u \<le> j * n + u" by simp
    also have "j * n + u < n * n" using j u by (rule index_bound)
    finally have b: "j * min n 16 + u < n * n" .
    show "(f32_get (mElements (idm n)) (i * n + u) = Fin 0 \<or> f32_get (mElements (idm n)) (i * n + u) = Fin 1) \<and>
      (f32_get (mElements (idm n)) (j * min n 16 + u) = Fin 0 \<or>
       f32_get (mElements (idm n)) (j * min n 16 + u) = Fin 1)"
      using a b by (simp only: f32_get_idm) simp
  qed
  have "(0::real) + real (length [0..<n]) \<le> 16777216" using n by simp
  from fold_01[OF r _ this] show ?thesis
    by (simp add: naive_dot_idm)
qed

lemma naiveMultiply_idm:
  assumes n: "0 < n" "n \<le> 4096"
  shows "naiveMultiply exact_env (idm n) (idm n) =
           Inr (updateMatrix (fresh n n
                  (map (\<lambda>k. naive_dot exact_env (idm n) (idm n) (k div n) (k mod n)) [0..<n * n])))"
proof -
  have fin: "\<exists>y. naive_dot exact_env (idm n) (idm n) (k div n) (k mod n) = Fin y \<and> 0 \<le> y \<and> y \<le> real n"
    if "k < n * n" for k
    using that n by (intro naive_dot_idm_fin) (simp_all add: less_mult_imp_div_less)
  have m: "map (\<lambda>k. fround exact_env (naive_dot exact_env (idm n) (idm n) (k div n) (k mod n))) [0..<n * n]
           = map (\<lambda>k. naive_dot exact_env (idm n) (idm n) (k div n) (k mod n)) [0..<n * n]"
  proof (rule map_cong[OF refl])
    fix k assume "k \<in> set [0..<n * n]"
    then obtain y where "naive_dot exact_env (idm n) (idm n) (k div n) (k mod n) = Fin y" "0 \<le> y" "y \<le> real n"
      using fin[of k] by auto
    then show "fround exact_env (naive_dot exact_env (idm n) (idm n) (k div n) (k mod n))
               = naive_dot exact_env (idm n) (idm n) (k div n) (k mod n)"
      using n by simp
  qed
  have nn: "list_all (\<lambda>v. \<not> isNaN v)
              (map (\<lambda>k. naive_dot exact_env (idm n) (idm n) (k div n) (k mod n)) [0..<n * n])"
    unfolding list_all_iff
  proof
    fix v assume "v \<in> set (map (\<lambda>k. naive_dot exact_env (idm n) (idm n) (k div n) (k mod n)) [0..<n * n])"
    then obtain k where "k < n * n" "v = naive_dot exact_env (idm n) (idm n) (k div n) (k mod n)" by auto
    with fin[of k] show "\<not> isNaN v" by (auto simp: isNaN_def)
  qed
  show ?thesis
    using n nn by (simp add: naiveMultiply_eq idm_fields m new_Matrix_eq)
qed

lemma naive_dot_17: "naive_dot exact_env (idm 17) (idm 17) 1 1 = Fin 0"
  by (simp add: naive_dot_idm f32_get_idm upt_rec)

lemma naive_dot_32: "naive_dot exact_env (idm 32) (idm 32) 1 1 = Fin 0"
  by (simp add: naive_dot_idm f32_get_idm upt_rec)

text \<open>
  C6, at the input where the code leaves it. The offset of column \<open>j\<close> in the storage
  of the transpose is \<^verbatim>\<open>j * unrollingFactor\<close> in \<^verbatim>\<open>naiveMultiply\<close>, where it is
  \<open>j * columns\<close>; the two differ as soon as there are more than 16 columns. For the
  identity matrix of dimension 17, in an arithmetic that is exact on the values involved
  (all are 0 or 1), the product of the matrix with \<^verbatim>\<open>identity(17)\<close> is returned with the
  entry 0 in row 1 and column 1, where the matrix has 1.
\<close>

theorem naiveMultiply_identity_17:
  "identity exact_env 17 = Inr (idm 17) \<and>
   (\<exists>P. naiveMultiply exact_env (idm 17) (idm 17) = Inr P \<and> entry P 1 1 = Fin 0) \<and>
   entry (idm 17) 1 1 = Fin 1"
proof -
  have "identity exact_env (int 17) = Inr (idm 17)" by (rule identity_exact) simp
  moreover have "entry (updateMatrix (fresh 17 17
                  (map (\<lambda>k. naive_dot exact_env (idm 17) (idm 17) (k div 17) (k mod 17)) [0..<17 * 17]))) 1 1
                 = Fin 0"
    using naive_dot_17 by (simp add: entry_def updateMatrix_fresh_inv del: upt_rec_numeral)
  moreover have "entry (idm 17) 1 1 = Fin 1" by (simp add: idm_entry)
  ultimately show ?thesis using naiveMultiply_idm[of 17] by simp
qed

section \<open>Inversion of an upper triangular matrix\<close>











section \<open>Orthogonalisation and QR decomposition\<close>

lemma DELTA_exact: "DELTA exact_env = 1 / 10 ^ 7"
  by (simp add: exact_env_def)

lemmas loop_simps = getColumn_def getColumn_loop.simps dot_def reduce_add_def normalize_def
  gramSmith_project_def gramSmith_column_def
  bindE_simps upt_rec DELTA_exact

subsection \<open>A zero first column\<close>

lemma getColumn_loop_eq:
  "0 < step \<Longrightarrow>
   getColumn_loop a i (i + n * step) step = map (\<lambda>k. f32_get a (i + k * step)) [0..<n]"
proof (induction n arbitrary: i)
  case 0
  then show ?case by (subst getColumn_loop.simps) simp
next
  case (Suc n)
  have "getColumn_loop a (i + step) ((i + step) + n * step) step
        = map (\<lambda>k. f32_get a ((i + step) + k * step)) [0..<n]"
    using Suc by simp
  then have rest: "getColumn_loop a (i + step) (i + Suc n * step) step
        = map (\<lambda>k. f32_get a (i + Suc k * step)) [0..<n]"
    by (simp add: add.assoc add.commute add.left_commute)
  have "map (\<lambda>k. f32_get a (i + k * step)) [0..<Suc n]
        = f32_get a i # map (\<lambda>k. f32_get a (i + Suc k * step)) [0..<n]"
    by (simp add: upt_conv_Cons map_Suc_upt[symmetric] del: upt_Suc)
  with rest Suc.prems show ?case
    by (subst getColumn_loop.simps) simp
qed

lemma getColumn_eq:
  assumes "0 < columns A" "i < rows A"
  shows "getColumn A (int i) = Inr (map (\<lambda>k. f32_get (mElements A) (i + k * columns A)) [0..<rows A])"
  using getColumn_loop_eq[OF assms(1), of "mElements A" i "rows A"] assms(2)
  by (simp add: getColumn_def Let_def add.commute)

lemma nsub_NaN [simp]: "nsub E x NaN = NaN" "nsub E NaN y = NaN"
  by (cases x; simp) (cases y; simp)

lemma nmul_NaN [simp]: "nmul E x NaN = NaN" "nmul E NaN y = NaN"
  by (cases x; simp) (cases y; simp)

lemma nadd_NaN [simp]: "nadd E x NaN = NaN" "nadd E NaN y = NaN"
  by (cases x; simp) (cases y; simp)

lemma ndiv_NaN [simp]: "ndiv E NaN y = NaN"
  by (cases y; simp)

lemma mk64_zero: "round64 E 0 = 0 \<Longrightarrow> 0 \<le> max64 E \<Longrightarrow> mk64 E 0 = Fin 0"
  by (simp add: mk64_def)

lemma nmul_zero_cases:
  "mk64 E 0 = Fin 0 \<Longrightarrow> nmul E (Fin 0) w = Fin 0 \<or> nmul E (Fin 0) w = NaN"
  by (cases w) simp_all

lemma fold_dot_zeros:
  assumes z: "mk64 E 0 = Fin 0" and js: "\<forall>j\<in>set js. j < r" and s: "s = Fin 0 \<or> s = NaN"
  shows "fold (\<lambda>i dotProduct. nadd E dotProduct (nmul E (arr_get (replicate r (Fin 0)) i) (arr_get v i))) js s = Fin 0 \<or>
         fold (\<lambda>i dotProduct. nadd E dotProduct (nmul E (arr_get (replicate r (Fin 0)) i) (arr_get v i))) js s = NaN"
  using js s
proof (induction js arbitrary: s)
  case Nil
  then show ?case by simp
next
  case (Cons j js)
  then have "arr_get (replicate r (Fin 0)) j = Fin 0" by (simp add: arr_get_def)
  moreover have "nmul E (Fin 0) (arr_get v j) = Fin 0 \<or> nmul E (Fin 0) (arr_get v j) = NaN"
    using z by (rule nmul_zero_cases)
  ultimately have "nadd E s (nmul E (arr_get (replicate r (Fin 0)) j) (arr_get v j)) = Fin 0 \<or>
                   nadd E s (nmul E (arr_get (replicate r (Fin 0)) j) (arr_get v j)) = NaN"
    using Cons.prems(2) z by auto
  then show ?case using Cons by simp
qed

lemma dot_zeros:
  "mk64 E 0 = Fin 0 \<Longrightarrow> dot E (replicate r (Fin 0)) v = Fin 0 \<or> dot E (replicate r (Fin 0)) v = NaN"
  unfolding dot_def by (rule fold_dot_zeros) simp_all

lemma fold_dot_zeros_self:
  assumes z: "mk64 E 0 = Fin 0" and js: "\<forall>j\<in>set js. j < r"
  shows "fold (\<lambda>i dotProduct. nadd E dotProduct (nmul E (arr_get (replicate r (Fin 0)) i)
                 (arr_get (replicate r (Fin 0)) i))) js (Fin 0) = Fin 0"
  using js by (induction js) (simp_all add: arr_get_def z)

lemma dot_zeros_self: "mk64 E 0 = Fin 0 \<Longrightarrow> dot E (replicate r (Fin 0)) (replicate r (Fin 0)) = Fin 0"
  unfolding dot_def by (rule fold_dot_zeros_self) simp_all

lemma map_const_upt: "map (\<lambda>i. x) [0..<n] = replicate n x"
  by (induction n) (simp_all add: replicate_append_same)

lemma project_first:
  assumes z: "mk64 E 0 = Fin 0" and col: "getColumn A (int i) = Inr v"
    and u: "oc ! 0 = replicate r (Fin 0)" and len: "length op = r"
  shows "gramSmith_project E A oc i 0 op = Inr (replicate r NaN)"
proof -
  have "ndiv E (dot E (replicate r (Fin 0)) v) (dot E (replicate r (Fin 0)) (replicate r (Fin 0))) = NaN"
    using dot_zeros[OF z, of r v] dot_zeros_self[OF z, of r] by auto
  then have "map (\<lambda>index. nsub E (op ! index)
                 (arr_get (map (\<lambda>entry. nmul E entry
                     (ndiv E (dot E (replicate r (Fin 0)) v) (dot E (replicate r (Fin 0)) (replicate r (Fin 0)))))
                   (replicate r (Fin 0))) index)) [0..<r] = map (\<lambda>index. NaN) [0..<r]"
    by (intro map_cong) (simp_all add: arr_get_def)
  then show ?thesis
    by (simp add: gramSmith_project_def col bindE_simps Let_def u len map_const_upt)
qed

lemma project_NaN:
  assumes col: "getColumn A (int i) = Inr v"
  shows "gramSmith_project E A oc i j (replicate r NaN) = Inr (replicate r NaN)"
proof -
  have "map (\<lambda>index. nsub E (replicate r NaN ! index) (f index)) [0..<r] = map (\<lambda>index. NaN) [0..<r]" for f
    by (intro map_cong) simp_all
  then show ?thesis
    by (simp add: gramSmith_project_def col bindE_simps Let_def map_const_upt)
qed

lemma foldE_fixed: "\<forall>j\<in>set js. f j x = Inr x \<Longrightarrow> foldE f js x = Inr x"
  by (induction js) (simp_all add: bindE_simps)

lemma project_all:
  assumes z: "mk64 E 0 = Fin 0" and col: "getColumn A (int i) = Inr v"
    and u: "oc ! 0 = replicate r (Fin 0)" and len: "length op = r" and i: "0 < i"
  shows "foldE (gramSmith_project E A oc i) [0..<i] op = Inr (replicate r NaN)"
proof -
  have "[0..<i] = 0 # [1..<i]" using i by (simp add: upt_conv_Cons)
  moreover have "foldE (gramSmith_project E A oc i) [1..<i] (replicate r NaN) = Inr (replicate r NaN)"
    by (rule foldE_fixed) (simp add: project_NaN[OF col])
  ultimately show ?thesis
    by (simp add: project_first[OF z col u len] bindE_simps)
qed

lemma fold_nadd_NaN: "fold (\<lambda>x acc. nadd E acc x) xs NaN = NaN"
  by (induction xs) simp_all

lemma reduce_squares_NaN: "0 < r \<Longrightarrow> reduce_add E (replicate r NaN) = Inr NaN"
  by (cases r) (simp_all add: reduce_add_def fold_nadd_NaN)

lemma column_step:
  assumes z: "mk64 E 0 = Fin 0" and col: "getColumn A (int i) = Inr v" and lv: "length v = r"
    and u: "oc ! 0 = replicate r (Fin 0)" and i: "0 < i" and r: "0 < r"
  shows "gramSmith_column E A i oc = Inr (oc @ [replicate r NaN])"
  by (simp add: gramSmith_column_def col bindE_simps project_all[OF z col u lv i] reduce_squares_NaN[OF r])


lemma columns_loop:
  assumes z: "mk64 E 0 = Fin 0" and r: "0 < r"
    and cols: "\<forall>i. 0 < i \<and> i \<le> m \<longrightarrow> (\<exists>v. getColumn A (int i) = Inr v \<and> length v = r)"
  shows "foldE (gramSmith_column E A) [1..<Suc m] [replicate r (Fin 0)]
           = Inr (replicate r (Fin 0) # replicate m (replicate r NaN))"
  using cols
proof (induction m)
  case 0
  then show ?case by simp
next
  case (Suc m)
  then have prev: "foldE (gramSmith_column E A) [1..<Suc m] [replicate r (Fin 0)]
           = Inr (replicate r (Fin 0) # replicate m (replicate r NaN))" by simp
  from Suc.prems obtain v where v: "getColumn A (int (Suc m)) = Inr v" "length v = r" by auto
  have "gramSmith_column E A (Suc m) (replicate r (Fin 0) # replicate m (replicate r NaN))
          = Inr ((replicate r (Fin 0) # replicate m (replicate r NaN)) @ [replicate r NaN])"
    using z v r by (intro column_step) simp_all
  then have step: "gramSmith_column E A (Suc m) (replicate r (Fin 0) # replicate m (replicate r NaN))
          = Inr (replicate r (Fin 0) # replicate (Suc m) (replicate r NaN))"
    by (simp add: replicate_append_same)
  have "[1..<Suc (Suc m)] = [1..<Suc m] @ [Suc m]" by simp
  then show ?case by (simp only: foldE_append prev bindE_simps foldE.simps step)
qed

lemma normalize_zeros:
  assumes z: "mk64 E 0 = Fin 0" and r: "0 < r"
  shows "normalize E (replicate r (Fin 0)) = Inr (replicate r NaN)"
proof -
  have "fold (\<lambda>x acc. nadd E acc x) (replicate n (Fin 0)) (Fin 0) = Fin 0" for n
    by (induction n) (simp_all add: z)
  then have "reduce_add E (replicate r (Fin 0)) = Inr (Fin 0)"
    using r by (cases r) (simp_all add: reduce_add_def)
  then show ?thesis
    by (simp add: normalize_def z bindE_simps Let_def)
qed

lemma normalize_NaN: "0 < r \<Longrightarrow> normalize E (replicate r NaN) = Inr (replicate r NaN)"
  by (simp add: normalize_def reduce_squares_NaN bindE_simps Let_def)

lemma foldE_collect_snoc:
  "\<forall>x\<in>set xs. g x = Inr (h x) \<Longrightarrow>
   foldE (\<lambda>x acc. bindE (g x) (\<lambda>n. Inr (acc @ [n]))) xs acc = Inr (acc @ map h xs)"
  by (induction xs arbitrary: acc) (simp_all add: bindE_simps)

lemma invalid_first_row:
  "xs \<noteq> [] \<Longrightarrow> NaN \<in> set (xs ! 0) \<Longrightarrow> \<not> validateMatrixEntries xs"
proof
  assume ne: "xs \<noteq> []" and nan: "NaN \<in> set (xs ! 0)" and v: "validateMatrixEntries xs"
  from v have "list_all (\<lambda>row. list_all (\<lambda>v. typeof_number v \<and> \<not> isNaN v) row) xs"
    by (auto simp: validateMatrixEntries_def Let_def list_all_iff split: if_splits)
  moreover have "xs ! 0 \<in> set xs" using ne by simp
  ultimately have "list_all (\<lambda>v. typeof_number v \<and> \<not> isNaN v) (xs ! 0)"
    by (simp add: list_all_iff)
  with nan show False by (auto simp: list_all_iff isNaN_def)
qed

text \<open>
  Where the columns can be read (there are no more columns than rows), a zero first column
  makes every entry of the result \<^verbatim>\<open>NaN\<close>, and the constructor rejects it: the error
  is 803, never 704.
\<close>

lemma gramSmith_zero_column:
  assumes e: "round64 E 0 = 0" "0 \<le> max64 E"
    and b: "buffer_ok A" and c: "0 < columns A" and cr: "columns A \<le> rows A"
    and z0: "\<forall>k<rows A. entry A k 0 = Fin 0"
  shows "gramSmith E A = Inl (MatrixError ''Invalid matrix entries'' 803)"
proof -
  let ?r = "rows A" and ?c = "columns A"
  let ?zeros = "replicate ?r (Fin 0)" and ?nan = "replicate ?r NaN"
  have z: "mk64 E 0 = Fin 0" using e by (rule mk64_zero)
  have r: "0 < ?r" using c cr by simp
  have cols: "getColumn A (int i) = Inr (map (\<lambda>k. f32_get (mElements A) (i + k * ?c)) [0..<?r])"
    if "i < ?c" for i
    using that cr by (intro getColumn_eq[OF c]) simp
  have "map (\<lambda>k. f32_get (mElements A) (0 + k * ?c)) [0..<?r] = map (\<lambda>k. Fin 0) [0..<?r]"
  proof (rule map_cong[OF refl])
    fix k assume "k \<in> set [0..<?r]"
    then have k: "k < ?r" by simp
    then have "k * ?c + 0 < ?r * ?c" using c by (intro index_bound) simp_all
    then have "f32_get (mElements A) (k * ?c) = entry A k 0"
      using b by (simp add: f32_get_def entry_def buffer_ok_def)
    with z0 k show "f32_get (mElements A) (0 + k * ?c) = Fin 0" by simp
  qed
  then have col0: "getColumn A 0 = Inr ?zeros"
    using cols[of 0] c by (simp add: map_const_upt)
  have "\<forall>i. 0 < i \<and> i \<le> ?c - 1 \<longrightarrow> (\<exists>v. getColumn A (int i) = Inr v \<and> length v = ?r)"
    using cols by auto
  from columns_loop[OF z r this]
  have loop: "foldE (gramSmith_column E A) [1..<?c] [?zeros] = Inr (?zeros # replicate (?c - 1) ?nan)"
    using c by simp
  have "\<forall>x\<in>set (?zeros # replicate (?c - 1) ?nan). normalize E x = Inr ((\<lambda>_. ?nan) x)"
    using normalize_zeros[OF z r] normalize_NaN[OF r, of E] by auto
  from foldE_collect_snoc[OF this, of "[]"]
  have norm: "foldE (\<lambda>column normalized. bindE (normalize E column) (\<lambda>n. Inr (normalized @ [n])))
                (?zeros # replicate (?c - 1) ?nan) [] = Inr (replicate ?c ?nan)"
    using c by (simp add: map_replicate_const replicate_Suc[symmetric] del: replicate_Suc)
  let ?T = "map (\<lambda>colIndex. map (\<lambda>row. arr_get row colIndex) (replicate ?c ?nan))
              [0..<length (replicate ?c ?nan ! 0)]"
  have "?T \<noteq> []" using r c by simp
  moreover have "NaN \<in> set (?T ! 0)" using r c by (simp add: arr_get_def)
  ultimately have "\<not> validateMatrixEntries ?T" by (rule invalid_first_row)
  then have "Matrix_of_rows E ?T = Inl (MatrixError ''Invalid matrix entries'' 803)"
    by (simp add: Matrix_of_rows_def)
  then show ?thesis
    by (simp only: gramSmith_def col0 bindE_simps loop norm Let_def)
qed

subsection \<open>Examples\<close>

lemma gramSmith_W: "gramSmith exact_env matrix_W = Inl (MatrixError ''Row index out of bounds'' 800)"
  by (simp add: gramSmith_def matrix_W_def loop_simps eval_simps)

lemma gramSmith_N: "gramSmith exact_env matrix_N = Inl (MatrixError ''Invalid matrix entries'' 803)"
proof -
  have "\<forall>k<rows matrix_N. entry matrix_N k 0 = Fin 0"
    by (auto simp: matrix_N_def entry_def less_2_cases_iff)
  moreover have "round64 exact_env 0 = 0" "0 \<le> max64 exact_env" by (simp_all add: exact_env_def)
  moreover have "buffer_ok matrix_N" "0 < columns matrix_N" "columns matrix_N \<le> rows matrix_N"
    by (simp_all add: matrix_N_def buffer_ok_def)
  ultimately show ?thesis by (intro gramSmith_zero_column) simp_all
qed





text \<open>
  C10, at the input where the code leaves it. \<open>matrix_W\<close> is the 1 by 2 matrix
  \<open>[[0, 1]]\<close>, whose first column is zero: \<^verbatim>\<open>gramSmith\<close> fails with the error 800
  (index out of bounds), thrown by \<^verbatim>\<open>getColumn(1)\<close>, which compares the column index
  with the number of rows. No matrix with more columns than rows gets past this test. On
  \<open>matrix_N\<close>, the 2 by 2 matrix \<open>[[0, 1], [0, 2]]\<close>, the call fails as C10 says, with
  the error 803 of the constructor (invalid matrix entries).
\<close>

theorem gramSmith_zero_first_column:
  "gramSmith exact_env matrix_W = Inl (MatrixError ''Row index out of bounds'' 800) \<and>
   gramSmith exact_env matrix_N = Inl (MatrixError ''Invalid matrix entries'' 803)"
  using gramSmith_W gramSmith_N by simp

section \<open>Strassen multiplication\<close>

lemma new_Matrix_rows: "new_Matrix els r c = Inr m \<Longrightarrow> rows m = r \<and> columns m = c"
  by (auto simp: new_Matrix_eq updateMatrix_fresh_inv split: if_splits)

lemma getSubmatrix_rows: "getSubmatrix E A r c h = Inr m \<Longrightarrow> rows m = h"
  by (auto simp: getSubmatrix_def Let_def dest: new_Matrix_rows)

lemma add_rows: "add E A B = Inr m \<Longrightarrow> rows m = rows A"
  by (auto simp: add_def Let_def dest: new_Matrix_rows split: if_splits)

lemma subtract_rows: "subtract E A B = Inr m \<Longrightarrow> rows m = rows A"
  by (auto simp: subtract_def Let_def dest: new_Matrix_rows split: if_splits)

termination strassenMultiply
proof (relation "measure (\<lambda>(E, this, other). rows this)", goal_cases)
  case 1
  then show ?case by simp
next
  case 2 then show ?case by (auto dest!: getSubmatrix_rows)
next
  case 3 then show ?case by (auto dest!: getSubmatrix_rows add_rows subtract_rows)
next
  case 4 then show ?case by (auto dest!: getSubmatrix_rows add_rows subtract_rows)
next
  case 5 then show ?case by (auto dest!: getSubmatrix_rows add_rows subtract_rows)
next
  case 6 then show ?case by (auto dest!: getSubmatrix_rows add_rows subtract_rows)
next
  case 7 then show ?case by (auto dest!: getSubmatrix_rows add_rows subtract_rows)
next
  case 8 then show ?case by (auto dest!: getSubmatrix_rows add_rows subtract_rows)
qed

declare strassenMultiply.simps [simp del]

lemma getSubmatrix_eq:
  "getSubmatrix E A r0 c0 h =
     new_Matrix (map (\<lambda>k. fround E (f32_get (mElements A) ((r0 + k div h) * columns A + (c0 + k mod h))))
                   [0..<h * h]) h h"
proof -
  let ?val = "\<lambda>i j. f32_get (mElements A) ((r0 + i) * columns A + (c0 + j))"
  let ?res = "fold (\<lambda>i a. fold (\<lambda>j a. f32_set E a (i * h + j) (?val i j)) [0..<h] a) [0..<h] (f32_new (h * h))"
  have "?res = map (\<lambda>k. fround E (?val (k div h) (k mod h))) [0..<h * h]"
  proof (rule nth_equalityI)
    show "length ?res = length (map (\<lambda>k. fround E (?val (k div h) (k mod h))) [0..<h * h])"
      by (simp only: fill_length length_map length_upt minus_nat.diff_0)
  next
    fix k assume "k < length ?res"
    then have k: "k < h * h" by (simp only: fill_length)
    then have h: "0 < h" by (cases h) simp_all
    have i: "k div h < h" using k by (simp add: less_mult_imp_div_less)
    have j: "k mod h < h" using h by simp
    have kk: "k div h * h + k mod h = k" by simp
    have "?res ! (k div h * h + k mod h) = fround E (?val (k div h) (k mod h))"
      using fill_nth[OF i j, of E ?val] .
    then have "?res ! k = fround E (?val (k div h) (k mod h))" by (simp only: kk)
    then show "?res ! k = map (\<lambda>k. fround E (?val (k div h) (k mod h))) [0..<h * h] ! k"
      using k by simp
  qed
  then have "new_Matrix ?res h h = new_Matrix (map (\<lambda>k. fround E (?val (k div h) (k mod h))) [0..<h * h]) h h"
    by (simp only:)
  then show ?thesis by (simp add: getSubmatrix_def Let_def)
qed

lemma fold_pointwise:
  "k \<le> length a \<Longrightarrow>
   fold (\<lambda>i res. f32_set E res i (g (f32_get res i) i)) [0..<k] a
     = map (\<lambda>i. fround E (g (a ! i) i)) [0..<k] @ drop k a"
proof (induction k)
  case 0
  then show ?case by simp
next
  case (Suc k)
  let ?xs = "map (\<lambda>i. fround E (g (a ! i) i)) [0..<k]"
  have prev: "fold (\<lambda>i res. f32_set E res i (g (f32_get res i) i)) [0..<k] a = ?xs @ drop k a"
    using Suc by simp
  have lx: "length ?xs = k" by simp
  have k: "k < length a" using Suc.prems by simp
  have d: "drop k a = a ! k # drop (Suc k) a" using k by (simp add: Cons_nth_drop_Suc)
  have g: "f32_get (?xs @ drop k a) k = a ! k"
    using k by (simp add: f32_get_def nth_append)
  have "f32_set E (?xs @ drop k a) k (g (a ! k) k) = ?xs @ fround E (g (a ! k) k) # drop (Suc k) a"
    using k lx by (simp add: f32_set_update d list_update_append)
  then show ?case by (simp add: prev g)
qed

lemma add_eq:
  assumes "length (mElements A) = sizeM A"
  shows "add E A B =
     (if shape A \<noteq> shape B then Inl (MatrixError ''Invalid matrix dimensions for addition'' 805)
      else new_Matrix (map (\<lambda>i. fround E (nadd E (mElements A ! i) (f32_get (mElements B) i))) [0..<sizeM A])
             (rows A) (columns A))"
proof -
  have "fold (add_at E (mElements B)) [0..<sizeM A] (mElements A)
        = map (\<lambda>i. fround E (nadd E (mElements A ! i) (f32_get (mElements B) i))) [0..<sizeM A]"
    using fold_pointwise[of "sizeM A" "mElements A" E "\<lambda>x i. nadd E x (f32_get (mElements B) i)"] assms
    by (simp add: add_at_def[abs_def])
  then show ?thesis by (simp add: add_def Let_def)
qed

lemma subtract_eq:
  assumes "length (mElements A) = sizeM A"
  shows "subtract E A B =
     (if shape A \<noteq> shape B then Inl (MatrixError ''Invalid matrix dimensions for subtraction'' 805)
      else new_Matrix (map (\<lambda>i. fround E (nsub E (mElements A ! i) (f32_get (mElements B) i))) [0..<sizeM A])
             (rows A) (columns A))"
proof -
  have "fold (\<lambda>i res. f32_set E res i (nsub E (f32_get res i) (f32_get (mElements B) i))) [0..<sizeM A] (mElements A)
        = map (\<lambda>i. fround E (nsub E (mElements A ! i) (f32_get (mElements B) i))) [0..<sizeM A]"
    using fold_pointwise[of "sizeM A" "mElements A" E "\<lambda>x i. nsub E x (f32_get (mElements B) i)"] assms
    by simp
  then show ?thesis by (simp add: subtract_def Let_def)
qed

lemma sqrt_up_le: "k \<le> h \<Longrightarrow> sqrt_up (h * h) k = h"
proof (induction "h - k" arbitrary: k)
  case 0
  then have "k = h" by simp
  then show ?case by (subst sqrt_up.simps) simp
next
  case (Suc d)
  then have lt: "k < h" by simp
  then have "k * k < h * h" by (simp add: mult_strict_mono)
  moreover have "sqrt_up (h * h) (Suc k) = h" using Suc lt by (intro Suc.hyps(1)) simp_all
  ultimately show ?case by (subst sqrt_up.simps) simp
qed

lemma sqrt_up_square: "sqrt_up (h * h) 0 = h"
  by (rule sqrt_up_le) simp

lemma setSubmatrix_fields:
  "rows (setSubmatrix E C r0 c0 blk) = rows C" "columns (setSubmatrix E C r0 c0 blk) = columns C"
  "sizeM (setSubmatrix E C r0 c0 blk) = sizeM C" "isSquare (setSubmatrix E C r0 c0 blk) = isSquare C"
  "isTall (setSubmatrix E C r0 c0 blk) = isTall C" "isWide (setSubmatrix E C r0 c0 blk) = isWide C"
  "shape (setSubmatrix E C r0 c0 blk) = shape C"
  "Matrix.more (setSubmatrix E C r0 c0 blk) = Matrix.more C"
  "length (mElements (setSubmatrix E C r0 c0 blk)) = length (mElements C)"
  by (simp_all add: setSubmatrix_def Let_def fold_fold_product f32_set_update case_prod_unfold)

lemma block_idx_distinct:
  assumes "c0 + h \<le> n"
  shows "distinct (map (\<lambda>p. (r0 + fst p) * n + (c0 + snd p)) (List.product [0..<h] [0..<h]))"
proof -
  have "inj_on (\<lambda>p. (r0 + fst p) * n + (c0 + snd p)) (set (List.product [0..<h] [0..<h]))"
  proof (rule inj_onI)
    fix p q assume p: "p \<in> set (List.product [0..<h] [0..<h])" and q: "q \<in> set (List.product [0..<h] [0..<h])"
      and e: "(r0 + fst p) * n + (c0 + snd p) = (r0 + fst q) * n + (c0 + snd q)"
    from p q assms have "c0 + snd p < n" "c0 + snd q < n" by auto
    from idx_inj_row[OF this e] show "p = q" by (simp add: prod_eq_iff)
  qed
  then show ?thesis by (simp add: distinct_map distinct_product)
qed

lemma setSubmatrix_nth:
  assumes blk: "length blk = h * h" and len: "length (mElements C) = n * n" and cols: "columns C = n"
    and fit: "r0 + h \<le> n" "c0 + h \<le> n" and r: "r < n" and c: "c < n"
  shows "mElements (setSubmatrix E C r0 c0 blk) ! (r * n + c) =
           (if r0 \<le> r \<and> r < r0 + h \<and> c0 \<le> c \<and> c < c0 + h
            then fround E (blk ! ((r - r0) * h + (c - c0)))
            else mElements C ! (r * n + c))"
proof -
  let ?idx = "\<lambda>p::nat \<times> nat. (r0 + fst p) * n + (c0 + snd p)"
  let ?val = "\<lambda>p::nat \<times> nat. fround E (f32_get blk (fst p * h + snd p))"
  let ?ps = "List.product [0..<h] [0..<h]"
  have eq: "mElements (setSubmatrix E C r0 c0 blk) = fold (\<lambda>p a. a[?idx p := ?val p]) ?ps (mElements C)"
    by (simp add: setSubmatrix_def Let_def blk sqrt_up_square cols fold_fold_product f32_set_update
          case_prod_unfold)
  have d: "distinct (map ?idx ?ps)" using fit(2) by (rule block_idx_distinct)
  show ?thesis
  proof (cases "r0 \<le> r \<and> r < r0 + h \<and> c0 \<le> c \<and> c < c0 + h")
    case True
    let ?p = "(r - r0, c - c0)"
    have mem: "?p \<in> set ?ps" using True by auto
    have ip: "?idx ?p = r * n + c" using True by simp
    have lt: "?idx ?p < length (mElements C)" using index_bound[OF r c] len by (simp only: ip)
    have "(r - r0) * h + (c - c0) < h * h" using True by (intro index_bound) auto
    then have g: "f32_get blk ((r - r0) * h + (c - c0)) = blk ! ((r - r0) * h + (c - c0))"
      using blk by (simp add: f32_get_def)
    from fold_update_nth[of ?idx ?ps ?p "mElements C" ?val, OF d mem lt]
    have "fold (\<lambda>p a. a[?idx p := ?val p]) ?ps (mElements C) ! (r * n + c)
            = fround E (f32_get blk ((r - r0) * h + (c - c0)))"
      using True by (simp only: fst_conv snd_conv) simp
    then show ?thesis by (simp only: eq g True if_True simp_thms)
  next
    case False
    have "r * n + c \<notin> ?idx ` set ?ps"
    proof
      assume "r * n + c \<in> ?idx ` set ?ps"
      then obtain i j where ij: "i < h" "j < h" "r * n + c = (r0 + i) * n + (c0 + j)" by auto
      then have "c0 + j < n" using fit by simp
      from idx_inj_row[OF c this ij(3)] ij False show False by auto
    qed
    then have "fold (\<lambda>p a. a[?idx p := ?val p]) ?ps (mElements C) ! (r * n + c) = mElements C ! (r * n + c)"
      by (rule fold_update_other)
    then show ?thesis by (simp only: eq False if_False)
  qed
qed

lemma sid_fields:
  "rows (sid n a) = n" "columns (sid n a) = n" "sizeM (sid n a) = n * n" "isSquare (sid n a)"
  "\<not> isTall (sid n a)" "\<not> isWide (sid n a)"
  "mElements (sid n a) = map (\<lambda>k. if k div n = k mod n then Fin a else Fin 0) [0..<n * n]"
  "length (mElements (sid n a)) = n * n"
  "shape (sid n a) = shape (sid n b)"
  by (simp_all add: sid_def updateMatrix_def updateShape_def updateSpecification_def fresh_def)

lemma sid_nth:
  "k < n * n \<Longrightarrow> mElements (sid n a) ! k = (if k div n = k mod n then Fin a else Fin 0)"
  by (simp add: sid_fields)

lemma sid_at:
  assumes "r < n" "c < n"
  shows "mElements (sid n a) ! (r * n + c) = (if r = c then Fin a else Fin 0)"
proof -
  have "r * n + c < n * n" using assms by (rule index_bound)
  then show ?thesis using assms by (simp add: sid_nth)
qed

lemma sid_eqI:
  assumes "0 < n" and "length els = n * n"
    and "\<And>r c. r < n \<Longrightarrow> c < n \<Longrightarrow> els ! (r * n + c) = (if r = c then Fin a else Fin 0)"
  shows "updateMatrix (fresh n n els) = sid n a"
proof -
  have "els = map (\<lambda>k. if k div n = k mod n then Fin a else Fin 0) [0..<n * n]"
  proof (rule nth_equalityI)
    show "length els = length (map (\<lambda>k. if k div n = k mod n then Fin a else Fin 0) [0..<n * n])"
      using assms(2) by simp
  next
    fix k assume "k < length els"
    then have k: "k < n * n" using assms(2) by simp
    have i: "k div n < n" using k by (simp add: less_mult_imp_div_less)
    have j: "k mod n < n" using assms(1) by simp
    have kk: "k div n * n + k mod n = k" by simp
    from assms(3)[OF i j] have "els ! k = (if k div n = k mod n then Fin a else Fin 0)"
      by (simp only: kk)
    then show "els ! k = map (\<lambda>k. if k div n = k mod n then Fin a else Fin 0) [0..<n * n] ! k"
      using k by simp
  qed
  then show ?thesis by (simp add: sid_def)
qed

lemma idm_sid: "idm n = sid n 1"
proof -
  have "concat (identity_entries n) = map (\<lambda>k. if k div n = k mod n then Fin 1 else Fin 0) [0..<n * n]"
  proof (rule nth_equalityI)
    show "length (concat (identity_entries n)) = length (map (\<lambda>k. if k div n = k mod n then Fin 1 else Fin 0) [0..<n * n])"
      by simp
  next
    fix k assume "k < length (concat (identity_entries n))"
    then have k: "k < n * n" by simp
    from idm_nth[OF k] show "concat (identity_entries n) ! k = map (\<lambda>k. if k div n = k mod n then Fin 1 else Fin 0) [0..<n * n] ! k"
      using k by (simp add: idm_fields)
  qed
  then show ?thesis by (simp add: idm_def sid_def)
qed

subsection \<open>Multiples of the identity matrix\<close>

lemma new_Matrix_sid:
  assumes n: "0 < n" and len: "length els = n * n"
    and at: "\<And>r c. r < n \<Longrightarrow> c < n \<Longrightarrow> els ! (r * n + c) = (if r = c then Fin a else Fin 0)"
  shows "new_Matrix els n n = Inr (sid n a)"
proof -
  have eq: "updateMatrix (fresh n n els) = sid n a" using n len at by (rule sid_eqI)
  then have "mElements (updateMatrix (fresh n n els)) = mElements (sid n a)" by simp
  then have "els = map (\<lambda>k. if k div n = k mod n then Fin a else Fin 0) [0..<n * n]"
    by (simp only: updateMatrix_fresh_inv sid_fields)
  then have "list_all (\<lambda>v. \<not> isNaN v) els"
    by (auto simp: list_all_iff isNaN_def)
  then show ?thesis using n eq by (simp add: new_Matrix_eq)
qed

lemma fround_exact_small: "\<bar>a\<bar> \<le> 16777216 \<Longrightarrow> fround exact_env (Fin a) = Fin a"
  by simp

lemma getSubmatrix_sid_at:
  assumes h: "0 < h" and a: "\<bar>a\<bar> \<le> 16777216" and r0: "r0 = 0 \<or> r0 = h" and c0: "c0 = 0 \<or> c0 = h"
  shows "getSubmatrix exact_env (sid (2 * h) a) r0 c0 h = Inr (sid h (if r0 = c0 then a else 0))"
proof -
  let ?els = "map (\<lambda>k. fround exact_env (f32_get (mElements (sid (2 * h) a))
                       ((r0 + k div h) * columns (sid (2 * h) a) + (c0 + k mod h)))) [0..<h * h]"
  have "new_Matrix ?els h h = Inr (sid h (if r0 = c0 then a else 0))"
  proof (rule new_Matrix_sid[OF h])
    show "length ?els = h * h" by simp
  next
    fix r c assume r: "r < h" and c: "c < h"
    have k: "r * h + c < h * h" using r c by (rule index_bound)
    have dm: "(r * h + c) div h = r" "(r * h + c) mod h = c" using c by simp_all
    have rr: "r0 + r < 2 * h" and cc: "c0 + c < 2 * h" using r c r0 c0 by auto
    have "(r0 + r) * (2 * h) + (c0 + c) < (2 * h) * (2 * h)" using rr cc by (rule index_bound)
    then have g: "f32_get (mElements (sid (2 * h) a)) ((r0 + r) * (2 * h) + (c0 + c))
               = (if r0 + r = c0 + c then Fin a else Fin 0)"
      using sid_at[OF rr cc, of a] by (simp add: f32_get_def sid_fields(8))
    have "?els ! (r * h + c) = fround exact_env (if r0 + r = c0 + c then Fin a else Fin 0)"
      using k r c by (simp add: sid_fields(2) g)
    also have "\<dots> = (if r = c then Fin (if r0 = c0 then a else 0) else Fin 0)"
      using a r c r0 c0 by auto
    finally show "?els ! (r * h + c) = (if r = c then Fin (if r0 = c0 then a else 0) else Fin 0)" .
  qed
  then show ?thesis by (simp only: getSubmatrix_eq)
qed

lemma getSubmatrix_sid:
  assumes "0 < h" "\<bar>a\<bar> \<le> 16777216"
  shows "getSubmatrix exact_env (sid (2 * h) a) 0 0 h = Inr (sid h a)"
    "getSubmatrix exact_env (sid (2 * h) a) 0 h h = Inr (sid h 0)"
    "getSubmatrix exact_env (sid (2 * h) a) h 0 h = Inr (sid h 0)"
    "getSubmatrix exact_env (sid (2 * h) a) h h h = Inr (sid h a)"
  using getSubmatrix_sid_at[OF assms, of 0 0] getSubmatrix_sid_at[OF assms, of 0 h]
    getSubmatrix_sid_at[OF assms, of h 0] getSubmatrix_sid_at[OF assms, of h h] assms(1)
  by simp_all

lemma add_sid:
  assumes h: "0 < h" and b: "\<bar>a\<bar> \<le> 16777216" "\<bar>b\<bar> \<le> 16777216" "\<bar>a + b\<bar> \<le> 16777216"
  shows "add exact_env (sid h a) (sid h b) = Inr (sid h (a + b))"
proof -
  let ?els = "map (\<lambda>i. fround exact_env (nadd exact_env (mElements (sid h a) ! i)
                       (f32_get (mElements (sid h b)) i))) [0..<sizeM (sid h a)]"
  have "new_Matrix ?els h h = Inr (sid h (a + b))"
  proof (rule new_Matrix_sid[OF h])
    show "length ?els = h * h" by (simp add: sid_fields)
  next
    fix r c assume r: "r < h" and c: "c < h"
    have k: "r * h + c < h * h" using r c by (rule index_bound)
    have "?els ! (r * h + c) = fround exact_env (nadd exact_env (mElements (sid h a) ! (r * h + c))
                       (f32_get (mElements (sid h b)) (r * h + c)))"
      using k by (simp add: sid_fields(3) del: upt_rec_numeral)
    also have "\<dots> = fround exact_env (nadd exact_env (if r = c then Fin a else Fin 0)
                          (if r = c then Fin b else Fin 0))"
      using k sid_at[OF r c, of a] sid_at[OF r c, of b] by (simp add: f32_get_def sid_fields(8))
    also have "\<dots> = (if r = c then Fin (a + b) else Fin 0)" using b by auto
    finally show "?els ! (r * h + c) = (if r = c then Fin (a + b) else Fin 0)" .
  qed
  then show ?thesis
    using add_eq[of "sid h a" exact_env "sid h b"] sid_fields(9)[of h a b]
    by (simp add: sid_fields)
qed

lemma subtract_sid:
  assumes h: "0 < h" and b: "\<bar>a\<bar> \<le> 16777216" "\<bar>b\<bar> \<le> 16777216" "\<bar>a - b\<bar> \<le> 16777216"
  shows "subtract exact_env (sid h a) (sid h b) = Inr (sid h (a - b))"
proof -
  let ?els = "map (\<lambda>i. fround exact_env (nsub exact_env (mElements (sid h a) ! i)
                       (f32_get (mElements (sid h b)) i))) [0..<sizeM (sid h a)]"
  have "new_Matrix ?els h h = Inr (sid h (a - b))"
  proof (rule new_Matrix_sid[OF h])
    show "length ?els = h * h" by (simp add: sid_fields)
  next
    fix r c assume r: "r < h" and c: "c < h"
    have k: "r * h + c < h * h" using r c by (rule index_bound)
    have "?els ! (r * h + c) = fround exact_env (nsub exact_env (mElements (sid h a) ! (r * h + c))
                       (f32_get (mElements (sid h b)) (r * h + c)))"
      using k by (simp add: sid_fields(3) del: upt_rec_numeral)
    also have "\<dots> = fround exact_env (nsub exact_env (if r = c then Fin a else Fin 0)
                          (if r = c then Fin b else Fin 0))"
      using k sid_at[OF r c, of a] sid_at[OF r c, of b] by (simp add: f32_get_def sid_fields(8))
    also have "\<dots> = (if r = c then Fin (a - b) else Fin 0)" using b by auto
    finally show "?els ! (r * h + c) = (if r = c then Fin (a - b) else Fin 0)" .
  qed
  then show ?thesis
    using subtract_eq[of "sid h a" exact_env "sid h b"] sid_fields(9)[of h a b]
    by (simp add: sid_fields)
qed

lemma sid_invariants:
  "buffer_ok (sid n a)" "flags_ok (sid n a)" "shape_ok (sid n a)"
  by (simp_all add: buffer_ok_def flags_ok_def sid_fields) (simp add: sid_def updateMatrix_fresh_inv)

lemma transposeM_sid:
  assumes a: "\<bar>a\<bar> \<le> 16777216"
  shows "transposeM exact_env (sid n a) = sid n a"
proof (rule Matrix.equality)
  let ?src = "mElements (sid n a)"
  have len: "length ?src = n * n" by (simp add: sid_fields)
  have "transpose_loop exact_env n n ?src ?src = ?src"
  proof (rule nth_equalityI)
    show "length (transpose_loop exact_env n n ?src ?src) = length ?src" by simp
  next
    fix k assume "k < length (transpose_loop exact_env n n ?src ?src)"
    then have k: "k < n * n" using len by simp
    then have n: "0 < n" by (cases n) simp_all
    have i: "k mod n < n" using n by simp
    have j: "k div n < n" using k by (simp add: less_mult_imp_div_less)
    have "transpose_loop exact_env n n ?src ?src ! k = fround exact_env (?src ! (k mod n * n + k div n))"
      using k by (simp add: transpose_loop_eq[OF len])
    also have "?src ! (k mod n * n + k div n) = (if k mod n = k div n then Fin a else Fin 0)"
      using i j by (rule sid_at)
    also have "fround exact_env (if k mod n = k div n then Fin a else Fin 0) = ?src ! k"
      using sid_nth[OF k, of a] a by auto
    finally show "transpose_loop exact_env n n ?src ?src ! k = ?src ! k" .
  qed
  then show "mElements (transposeM exact_env (sid n a)) = mElements (sid n a)"
    by (simp add: transposeM_fields sid_fields)
  have "shape (updateShape (sid n a)) = shape (sid n a)"
    using sid_invariants(3)[of n a] by (simp add: shape_ok_def)
  then show "shape (transposeM exact_env (sid n a)) = shape (sid n a)"
    by (simp add: transposeM_fields sid_fields updateShape_def)
qed (simp_all add: transposeM_fields sid_fields)

lemma f32_get_sid2:
  "f32_get (mElements (sid 2 a)) 0 = Fin a" "f32_get (mElements (sid 2 a)) (Suc 0) = Fin 0"
  "f32_get (mElements (sid 2 a)) 2 = Fin 0" "f32_get (mElements (sid 2 a)) 3 = Fin a"
  by (simp_all add: f32_get_def sid_fields upt_rec)

lemma naive_dot_sid2:
  assumes b: "\<bar>a\<bar> \<le> 16777216" "\<bar>b\<bar> \<le> 16777216" "\<bar>a * b\<bar> \<le> 16777216" and r: "r < 2" and c: "c < 2"
  shows "naive_dot exact_env (sid 2 a) (sid 2 b) r c = (if r = c then Fin (a * b) else Fin 0)"
proof -
  from r c have "(r = 0 \<or> r = Suc 0) \<and> (c = 0 \<or> c = Suc 0)" by auto
  then show ?thesis
    using b by (auto simp: naive_dot_def transposeM_sid sid_fields(2) f32_get_sid2 upt_rec numeral_2_eq_2[symmetric])
qed

lemma naiveMultiply_sid2:
  assumes b: "\<bar>a\<bar> \<le> 16777216" "\<bar>b\<bar> \<le> 16777216" "\<bar>a * b\<bar> \<le> 16777216"
  shows "naiveMultiply exact_env (sid 2 a) (sid 2 b) = Inr (sid 2 (a * b))"
proof -
  let ?els = "map (\<lambda>k. fround exact_env (naive_dot exact_env (sid 2 a) (sid 2 b) (k div 2) (k mod 2))) [0..<2 * 2]"
  have "new_Matrix ?els 2 2 = Inr (sid 2 (a * b))"
  proof (rule new_Matrix_sid)
    show "(0::nat) < 2" by simp
    show "length ?els = 2 * 2" by simp
  next
    fix r c :: nat assume r: "r < 2" and c: "c < 2"
    have k: "r * 2 + c < 2 * 2" using r c by (rule index_bound)
    have "?els ! (r * 2 + c) = fround exact_env (naive_dot exact_env (sid 2 a) (sid 2 b) r c)"
      using k r c by (simp del: upt_rec_numeral)
    also have "\<dots> = (if r = c then Fin (a * b) else Fin 0)"
      using b by (simp add: naive_dot_sid2[OF b r c])
    finally show "?els ! (r * 2 + c) = (if r = c then Fin (a * b) else Fin 0)" .
  qed
  then show ?thesis by (simp add: naiveMultiply_eq sid_fields)
qed

lemma isPowerOfTwo_power: "isPowerOfTwo (2 ^ k)"
proof (induction k)
  case 0
  show ?case by (subst isPowerOfTwo.simps) simp
next
  case (Suc k)
  have "(1::nat) \<le> 2 ^ k" by simp
  then have "\<not> (2::nat) * 2 ^ k \<le> 1" by linarith
  with Suc show ?case by (subst isPowerOfTwo.simps) simp
qed

lemma assemble_sid:
  assumes h: "0 < h" and c: "\<bar>c\<bar> \<le> 16777216"
  shows "setSubmatrix exact_env
           (setSubmatrix exact_env
              (setSubmatrix exact_env
                 (setSubmatrix exact_env (updateMatrix (fresh (2 * h) (2 * h) (f32_new (2 * h * (2 * h)))))
                    0 0 (mElements (sid h c)))
                 0 h (mElements (sid h 0)))
              h 0 (mElements (sid h 0)))
           h h (mElements (sid h c)) = sid (2 * h) c"
proof -
  let ?n = "2 * h"
  let ?C0 = "updateMatrix (fresh ?n ?n (f32_new (?n * ?n)))"
  let ?C1 = "setSubmatrix exact_env ?C0 0 0 (mElements (sid h c))"
  let ?C2 = "setSubmatrix exact_env ?C1 0 h (mElements (sid h 0))"
  let ?C3 = "setSubmatrix exact_env ?C2 h 0 (mElements (sid h 0))"
  let ?C4 = "setSubmatrix exact_env ?C3 h h (mElements (sid h c))"
  have l0: "length (mElements ?C0) = ?n * ?n" "columns ?C0 = ?n"
    by (simp_all add: updateMatrix_fresh_inv f32_new_def)
  have l1: "length (mElements ?C1) = ?n * ?n" "columns ?C1 = ?n" using l0 by (simp_all add: setSubmatrix_fields)
  have l2: "length (mElements ?C2) = ?n * ?n" "columns ?C2 = ?n" using l1 by (simp_all only: setSubmatrix_fields)
  have l3: "length (mElements ?C3) = ?n * ?n" "columns ?C3 = ?n" using l2 by (simp_all only: setSubmatrix_fields)
  have l4: "length (mElements ?C4) = ?n * ?n" using l3 by (simp only: setSubmatrix_fields)
  have blk: "length (mElements (sid h x)) = h * h" for x by (simp add: sid_fields)
  have at: "mElements ?C4 ! (r * ?n + q) = (if r = q then Fin c else Fin 0)" if r: "r < ?n" and q: "q < ?n" for r q
  proof -
    have b: "mElements (sid h x) ! ((r - r0) * h + (q - q0)) = (if r - r0 = q - q0 then Fin x else Fin 0)"
      if "r - r0 < h" "q - q0 < h" for x r0 q0
      using that by (rule sid_at)
    have e0: "mElements ?C0 ! (r * ?n + q) = Fin 0"
      using index_bound[OF r q] by (simp add: updateMatrix_fresh_inv f32_new_def)
    have e1: "mElements ?C1 ! (r * ?n + q) =
                (if r < h \<and> q < h then fround exact_env (mElements (sid h c) ! ((r - 0) * h + (q - 0))) else Fin 0)"
      using setSubmatrix_nth[OF blk l0 _ _ r q, of 0 0 exact_env c] e0 by simp
    have e2: "mElements ?C2 ! (r * ?n + q) =
                (if r < h \<and> h \<le> q then fround exact_env (mElements (sid h 0) ! ((r - 0) * h + (q - h)))
                 else mElements ?C1 ! (r * ?n + q))"
      using setSubmatrix_nth[OF blk l1 _ _ r q, of 0 h exact_env 0] q by simp
    have e3: "mElements ?C3 ! (r * ?n + q) =
                (if h \<le> r \<and> q < h then fround exact_env (mElements (sid h 0) ! ((r - h) * h + (q - 0)))
                 else mElements ?C2 ! (r * ?n + q))"
      using setSubmatrix_nth[OF blk l2 _ _ r q, of h 0 exact_env 0] r by simp
    have e4: "mElements ?C4 ! (r * ?n + q) =
                (if h \<le> r \<and> h \<le> q then fround exact_env (mElements (sid h c) ! ((r - h) * h + (q - h)))
                 else mElements ?C3 ! (r * ?n + q))"
      using setSubmatrix_nth[OF blk l3 _ _ r q, of h h exact_env c] r q by simp
    consider (tl) "r < h" "q < h" | (tr) "r < h" "h \<le> q" | (bl) "h \<le> r" "q < h" | (br) "h \<le> r" "h \<le> q"
      by linarith
    then show ?thesis
    proof cases
      case tl
      then show ?thesis using c b[of 0 0 c] by (simp only: e4 e3 e2 e1) auto
    next
      case tr
      then have "r - 0 < h" "q - h < h" using q by auto
      from b[OF this, of 0] tr show ?thesis by (simp only: e4 e3 e2) auto
    next
      case bl
      then have "r - h < h" "q - 0 < h" using r by auto
      from b[OF this, of 0] bl show ?thesis by (simp only: e4 e3) auto
    next
      case br
      then have "r - h < h" "q - h < h" using r q by auto
      from b[OF this, of c] br c show ?thesis by (simp only: e4) auto
    qed
  qed
  have "updateMatrix (fresh ?n ?n (mElements ?C4)) = sid ?n c"
    using h l4 at by (intro sid_eqI) simp_all
  moreover have "?C4 = updateMatrix (fresh ?n ?n (mElements ?C4))"
    by (rule Matrix.equality)
       (simp_all add: setSubmatrix_fields updateMatrix_def updateShape_def updateSpecification_def fresh_def)
  ultimately show ?thesis by simp
qed

lemma new_Matrix_zeros:
  "0 < n \<Longrightarrow> new_Matrix (f32_new (n * n)) n n = Inr (updateMatrix (fresh n n (f32_new (n * n))))"
  by (simp add: new_Matrix_eq f32_new_def list_all_iff isNaN_def)

text \<open>
  On multiples of an identity matrix of dimension \<open>2\<^sup>k\<close> the recursion returns the
  product, in the arithmetic that is exact on the values involved.
\<close>

lemma strassen_sid:
  "1 \<le> k \<Longrightarrow> \<bar>a\<bar> * 2 ^ k \<le> 4096 \<Longrightarrow> \<bar>b\<bar> * 2 ^ k \<le> 4096 \<Longrightarrow>
   strassenMultiply exact_env (sid (2 ^ k) a) (sid (2 ^ k) b) = Inr (sid (2 ^ k) (a * b))"
proof (induction k arbitrary: a b rule: nat_induct_at_least)
  case base
  then have a: "\<bar>a\<bar> \<le> 2048" and b: "\<bar>b\<bar> \<le> 2048" by simp_all
  have "\<bar>a\<bar> * \<bar>b\<bar> \<le> 2048 * 2048" using a b by (intro mult_mono) simp_all
  then have "\<bar>a * b\<bar> \<le> 16777216" by (simp add: abs_mult)
  with a b have "naiveMultiply exact_env (sid 2 a) (sid 2 b) = Inr (sid 2 (a * b))"
    by (intro naiveMultiply_sid2) simp_all
  moreover have "isPowerOfTwo 2" using isPowerOfTwo_power[of 1] by simp
  ultimately show ?case
    by (subst strassenMultiply.simps) (simp add: Let_def sid_fields)
next
  case (Suc k)
  define h :: nat where "h = 2 ^ k"
  define c where "c = a * b"
  have h2: "2 \<le> h" using Suc.hyps self_le_power[of 2 k] by (simp add: h_def)
  then have h: "0 < h" by simp
  have hr: "(2::real) \<le> real h" using h2 by simp
  from Suc.prems have ah: "\<bar>a\<bar> * real h \<le> 2048" and bh: "\<bar>b\<bar> * real h \<le> 2048"
    by (simp_all add: h_def)
  have a: "\<bar>a\<bar> \<le> 1024"
  proof -
    have "\<bar>a\<bar> * 2 \<le> \<bar>a\<bar> * real h" using hr by (intro mult_left_mono) simp_all
    with ah show ?thesis by simp
  qed
  have b: "\<bar>b\<bar> \<le> 1024"
  proof -
    have "\<bar>b\<bar> * 2 \<le> \<bar>b\<bar> * real h" using hr by (intro mult_left_mono) simp_all
    with bh show ?thesis by simp
  qed
  have "\<bar>a\<bar> * \<bar>b\<bar> \<le> 1024 * 1024" using a b by (intro mult_mono) simp_all
  then have c: "\<bar>c\<bar> \<le> 1048576" by (simp add: c_def abs_mult)
  have IH: "strassenMultiply exact_env (sid h x) (sid h y) = Inr (sid h (x * y))"
    if "\<bar>x\<bar> * real h \<le> 4096" "\<bar>y\<bar> * real h \<le> 4096" for x y
    using Suc.IH[of x y] that by (simp add: h_def)
  have sub:
    "getSubmatrix exact_env (sid (2 * h) a) 0 0 h = Inr (sid h a)"
    "getSubmatrix exact_env (sid (2 * h) a) 0 h h = Inr (sid h 0)"
    "getSubmatrix exact_env (sid (2 * h) a) h 0 h = Inr (sid h 0)"
    "getSubmatrix exact_env (sid (2 * h) a) h h h = Inr (sid h a)"
    "getSubmatrix exact_env (sid (2 * h) b) 0 0 h = Inr (sid h b)"
    "getSubmatrix exact_env (sid (2 * h) b) 0 h h = Inr (sid h 0)"
    "getSubmatrix exact_env (sid (2 * h) b) h 0 h = Inr (sid h 0)"
    "getSubmatrix exact_env (sid (2 * h) b) h h h = Inr (sid h b)"
    using a b h by (simp_all add: getSubmatrix_sid)
  have P1: "bindE (subtract exact_env (sid h 0) (sid h b)) (strassenMultiply exact_env (sid h a)) = Inr (sid h (- c))"
  proof -
    have "subtract exact_env (sid h 0) (sid h b) = Inr (sid h (0 - b))"
      using b h by (intro subtract_sid) simp_all
    moreover have "strassenMultiply exact_env (sid h a) (sid h (0 - b)) = Inr (sid h (a * (0 - b)))"
      using ah bh by (intro IH) simp_all
    ultimately show ?thesis by (simp add: bindE_simps c_def)
  qed
  have P2: "bindE (add exact_env (sid h a) (sid h 0)) (\<lambda>S. strassenMultiply exact_env S (sid h b)) = Inr (sid h c)"
  proof -
    have "add exact_env (sid h a) (sid h 0) = Inr (sid h (a + 0))"
      using a h by (intro add_sid) simp_all
    moreover have "strassenMultiply exact_env (sid h (a + 0)) (sid h b) = Inr (sid h ((a + 0) * b))"
      using ah bh by (intro IH) simp_all
    ultimately show ?thesis by (simp add: bindE_simps c_def)
  qed
  have P3: "bindE (add exact_env (sid h 0) (sid h a)) (\<lambda>S. strassenMultiply exact_env S (sid h b)) = Inr (sid h c)"
  proof -
    have "add exact_env (sid h 0) (sid h a) = Inr (sid h (0 + a))"
      using a h by (intro add_sid) simp_all
    moreover have "strassenMultiply exact_env (sid h (0 + a)) (sid h b) = Inr (sid h ((0 + a) * b))"
      using ah bh by (intro IH) simp_all
    ultimately show ?thesis by (simp add: bindE_simps c_def)
  qed
  have P5: "bindE (add exact_env (sid h a) (sid h a))
              (\<lambda>S. bindE (add exact_env (sid h b) (sid h b)) (strassenMultiply exact_env S)) = Inr (sid h (4 * c))"
  proof -
    have "add exact_env (sid h a) (sid h a) = Inr (sid h (a + a))"
      using a h by (intro add_sid) simp_all
    moreover have "add exact_env (sid h b) (sid h b) = Inr (sid h (b + b))"
      using b h by (intro add_sid) simp_all
    moreover have "strassenMultiply exact_env (sid h (a + a)) (sid h (b + b)) = Inr (sid h ((a + a) * (b + b)))"
      using ah bh by (intro IH) simp_all
    moreover have "(a + a) * (b + b) = 4 * c" by (simp add: c_def algebra_simps)
    ultimately show ?thesis by (simp add: bindE_simps)
  qed
  have P6: "bindE (subtract exact_env (sid h 0) (sid h a))
              (\<lambda>S. bindE (add exact_env (sid h 0) (sid h b)) (strassenMultiply exact_env S)) = Inr (sid h (- c))"
  proof -
    have "subtract exact_env (sid h 0) (sid h a) = Inr (sid h (0 - a))"
      using a h by (intro subtract_sid) simp_all
    moreover have "add exact_env (sid h 0) (sid h b) = Inr (sid h (0 + b))"
      using b h by (intro add_sid) simp_all
    moreover have "strassenMultiply exact_env (sid h (0 - a)) (sid h (0 + b)) = Inr (sid h ((0 - a) * (0 + b)))"
      using ah bh by (intro IH) simp_all
    ultimately show ?thesis by (simp add: bindE_simps c_def)
  qed
  have P7: "bindE (subtract exact_env (sid h a) (sid h 0))
              (\<lambda>S. bindE (add exact_env (sid h b) (sid h 0)) (strassenMultiply exact_env S)) = Inr (sid h c)"
  proof -
    have "subtract exact_env (sid h a) (sid h 0) = Inr (sid h (a - 0))"
      using a h by (intro subtract_sid) simp_all
    moreover have "add exact_env (sid h b) (sid h 0) = Inr (sid h (b + 0))"
      using b h by (intro add_sid) simp_all
    moreover have "strassenMultiply exact_env (sid h (a - 0)) (sid h (b + 0)) = Inr (sid h ((a - 0) * (b + 0)))"
      using ah bh by (intro IH) simp_all
    ultimately show ?thesis by (simp add: bindE_simps c_def)
  qed
  have addc: "add exact_env (sid h x) (sid h y) = Inr (sid h (x + y))"
    if "\<bar>x\<bar> \<le> 16777216" "\<bar>y\<bar> \<le> 16777216" "\<bar>x + y\<bar> \<le> 16777216" for x y
    using h that by (rule add_sid)
  have subc: "subtract exact_env (sid h x) (sid h y) = Inr (sid h (x - y))"
    if "\<bar>x\<bar> \<le> 16777216" "\<bar>y\<bar> \<le> 16777216" "\<bar>x - y\<bar> \<le> 16777216" for x y
    using h that by (rule subtract_sid)
  have C11: "bindE (bindE (bindE (add exact_env (sid h (4 * c)) (sid h (- c)))
                              (\<lambda>X. subtract exact_env X (sid h c)))
                       (\<lambda>X. add exact_env X (sid h (- c)))) f = f (sid h c)" for f :: "Matrix \<Rightarrow> error + Matrix"
  proof -
    have "add exact_env (sid h (4 * c)) (sid h (- c)) = Inr (sid h (4 * c + - c))"
      using c by (intro addc) simp_all
    moreover have "subtract exact_env (sid h (4 * c + - c)) (sid h c) = Inr (sid h (4 * c + - c - c))"
      using c by (intro subc) simp_all
    moreover have "add exact_env (sid h (4 * c + - c - c)) (sid h (- c)) = Inr (sid h (4 * c + - c - c + - c))"
      using c by (intro addc) simp_all
    moreover have "4 * c + - c - c + - c = c" by simp
    ultimately show ?thesis by (simp only: bindE_simps)
  qed
  have C12: "bindE (add exact_env (sid h (- c)) (sid h c)) f = f (sid h 0)" for f :: "Matrix \<Rightarrow> error + Matrix"
  proof -
    have "add exact_env (sid h (- c)) (sid h c) = Inr (sid h (- c + c))"
      using c by (intro addc) simp_all
    then show ?thesis by (simp add: bindE_simps)
  qed
  have C21: "bindE (add exact_env (sid h c) (sid h (- c))) f = f (sid h 0)" for f :: "Matrix \<Rightarrow> error + Matrix"
  proof -
    have "add exact_env (sid h c) (sid h (- c)) = Inr (sid h (c + - c))"
      using c by (intro addc) simp_all
    then show ?thesis by (simp add: bindE_simps)
  qed
  have C22: "bindE (bindE (bindE (add exact_env (sid h (4 * c)) (sid h (- c)))
                              (\<lambda>X. subtract exact_env X (sid h c)))
                       (\<lambda>X. subtract exact_env X (sid h c))) f = f (sid h c)" for f :: "Matrix \<Rightarrow> error + Matrix"
  proof -
    have "add exact_env (sid h (4 * c)) (sid h (- c)) = Inr (sid h (4 * c + - c))"
      using c by (intro addc) simp_all
    moreover have "subtract exact_env (sid h (4 * c + - c)) (sid h c) = Inr (sid h (4 * c + - c - c))"
      using c by (intro subc) simp_all
    moreover have "subtract exact_env (sid h (4 * c + - c - c)) (sid h c) = Inr (sid h (4 * c + - c - c - c))"
      using c by (intro subc) simp_all
    moreover have "4 * c + - c - c - c = c" by simp
    ultimately show ?thesis by (simp only: bindE_simps)
  qed
  have zeros: "new_Matrix (f32_new (2 * h * (2 * h))) (2 * h) (2 * h)
                 = Inr (updateMatrix (fresh (2 * h) (2 * h) (f32_new (2 * h * (2 * h)))))"
    using h by (intro new_Matrix_zeros) simp
  have asm: "setSubmatrix exact_env
           (setSubmatrix exact_env
              (setSubmatrix exact_env
                 (setSubmatrix exact_env (updateMatrix (fresh (2 * h) (2 * h) (f32_new (2 * h * (2 * h)))))
                    0 0 (mElements (sid h c)))
                 0 h (mElements (sid h 0)))
              h 0 (mElements (sid h 0)))
           h h (mElements (sid h c)) = sid (2 * h) c"
    using h c by (intro assemble_sid) simp_all
  have pw: "isPowerOfTwo (2 * h)" using isPowerOfTwo_power[of "Suc k"] by (simp add: h_def)
  have big: "\<not> 2 * h \<le> 2" using h2 by simp
  have "strassenMultiply exact_env (sid (2 * h) a) (sid (2 * h) b) = Inr (sid (2 * h) c)"
    by (subst strassenMultiply.simps)
       (simp only: Let_def sid_fields(1-6) pw big sub bindE_simps P1 P2 P3 P1 P5 P6 P7 C11 C12 C21 C22
          zeros asm simp_thms if_True if_False nonzero_mult_div_cancel_left div_mult_self1_is_m
          zero_less_numeral)
  then show ?case by (simp add: h_def c_def)
qed

text \<open>
  C1, at the input where the code leaves it. For the identity matrix of dimension 32,
  \<^verbatim>\<open>strassenMultiply\<close> returns the product, the identity matrix: it multiplies 2 by 2
  blocks, where \<^verbatim>\<open>naiveMultiply\<close> reads the transpose at the right offset. Called on
  the two matrices themselves, \<^verbatim>\<open>naiveMultiply\<close> reads the transpose at the offset
  \<open>16 * j\<close> for \<open>32 * j\<close>, and returns a matrix with the entry 0 in row 1 and column 1.
\<close>

theorem strassen_naive_disagree_32:
  "strassenMultiply exact_env (idm 32) (idm 32) = Inr (idm 32) \<and>
   (\<exists>P. naiveMultiply exact_env (idm 32) (idm 32) = Inr P \<and> entry P 1 1 = Fin 0) \<and>
   entry (idm 32) 1 1 = Fin 1"
proof -
  have "strassenMultiply exact_env (sid (2 ^ 5) 1) (sid (2 ^ 5) 1) = Inr (sid (2 ^ 5) (1 * 1))"
    by (rule strassen_sid) simp_all
  then have "strassenMultiply exact_env (idm 32) (idm 32) = Inr (idm 32)"
    by (simp add: idm_sid)
  moreover have "entry (updateMatrix (fresh 32 32
                  (map (\<lambda>k. naive_dot exact_env (idm 32) (idm 32) (k div 32) (k mod 32)) [0..<32 * 32]))) 1 1
                 = Fin 0"
    using naive_dot_32 by (simp add: entry_def updateMatrix_fresh_inv del: upt_rec_numeral)
  moreover have "entry (idm 32) 1 1 = Fin 1" by (simp add: idm_entry)
  ultimately show ?thesis using naiveMultiply_idm[of 32] by simp
qed

section \<open>The invariants of the results\<close>

lemma new_Matrix_Inr:
  assumes "new_Matrix els r c = Inr m"
  shows "no_NaN m" "one_flag m" "flags_ok m" "shape_ok m" "mElements m = els" "rows m = r" "columns m = c"
  using Matrix_of_buffer_Inr[of els "Some (int r)" "Some (int c)" m] assms
  by (simp_all add: new_Matrix_def)

lemma fold_add_at_length [simp]: "length (fold (add_at E b) js a) = length a"
  by (induction js arbitrary: a) (simp_all add: add_at_def f32_set_update)

lemma fold_chunks_length [simp]:
  "length (fold (\<lambda>i res. fold (add_at E b) (g i) res) js a) = length a"
  by (induction js arbitrary: a) simp_all

lemma fold_sub_at_length [simp]:
  "length (fold (\<lambda>i res. f32_set E res i (nsub E (f32_get res i) (f32_get b i))) js a) = length a"
  by (induction js arbitrary: a) (simp_all add: f32_set_update)

lemma add_Inr:
  assumes "add E A B = Inr m"
  shows "no_NaN m \<and> one_flag m \<and> flags_ok m \<and> shape_ok m \<and> buffer_ok m = buffer_ok A"
proof -
  from assms have "new_Matrix (fold (add_at E (mElements B)) [0..<sizeM A] (mElements A)) (rows A) (columns A) = Inr m"
    by (simp add: add_def Let_def split: if_splits)
  from new_Matrix_Inr[OF this] show ?thesis by (simp add: buffer_ok_def)
qed

lemma subtract_Inr:
  assumes "subtract E A B = Inr m"
  shows "no_NaN m \<and> one_flag m \<and> flags_ok m \<and> shape_ok m \<and> buffer_ok m = buffer_ok A"
proof -
  from assms have "new_Matrix (fold (\<lambda>i res. f32_set E res i (nsub E (f32_get res i) (f32_get (mElements B) i)))
                     [0..<sizeM A] (mElements A)) (rows A) (columns A) = Inr m"
    by (simp add: subtract_def Let_def split: if_splits)
  from new_Matrix_Inr[OF this] show ?thesis by (simp add: buffer_ok_def)
qed

lemma addasync_Inr:
  assumes "addasync E p A B = Inr m"
  shows "no_NaN m \<and> one_flag m \<and> flags_ok m \<and> shape_ok m \<and> buffer_ok m = buffer_ok A"
proof -
  from assms obtain els where "new_Matrix els (rows A) (columns A) = Inr m" "length els = length (mElements A)"
    by (auto simp: addasync_def Let_def split: if_splits)
  from new_Matrix_Inr[OF this(1)] this(2) show ?thesis by (simp add: buffer_ok_def)
qed

lemma naiveMultiply_Inr:
  assumes "naiveMultiply E A B = Inr m"
  shows "buffer_ok m \<and> no_NaN m \<and> one_flag m \<and> flags_ok m \<and> shape_ok m"
proof -
  from assms have "new_Matrix (map (\<lambda>k. fround E (naive_dot E A B (k div columns B) (k mod columns B)))
                         [0..<rows A * columns B]) (rows A) (columns B) = Inr m"
    by (simp add: naiveMultiply_eq split: if_splits)
  from new_Matrix_Inr[OF this] show ?thesis by (simp add: buffer_ok_def)
qed

lemma getSubmatrix_Inr:
  assumes "getSubmatrix E A r0 c0 h = Inr m"
  shows "buffer_ok m \<and> no_NaN m \<and> one_flag m \<and> flags_ok m \<and> shape_ok m"
proof -
  from assms have "new_Matrix (map (\<lambda>k. fround E (f32_get (mElements A) ((r0 + k div h) * columns A + (c0 + k mod h))))
                   [0..<h * h]) h h = Inr m"
    by (simp only: getSubmatrix_eq)
  from new_Matrix_Inr[OF this] show ?thesis by (simp add: buffer_ok_def)
qed

lemma transposeM_invariants:
  assumes b: "buffer_ok A" and n: "no_NaN A" and f: "flags_ok A"
  shows "buffer_ok (transposeM E A) \<and> no_NaN (transposeM E A) \<and> one_flag (transposeM E A) \<and>
         flags_ok (transposeM E A) \<and> shape_ok (transposeM E A)"
proof -
  let ?r = "rows A" and ?c = "columns A" and ?src = "mElements A"
  have len: "length ?src = ?r * ?c" using b by (simp add: buffer_ok_def)
  have els: "mElements (transposeM E A) = map (\<lambda>k. fround E (?src ! ((k mod ?r) * ?c + k div ?r))) [0..<?r * ?c]"
    by (simp add: transposeM_fields transpose_loop_eq[OF len])
  have "\<not> isNaN (fround E (?src ! ((k mod ?r) * ?c + k div ?r)))" if k: "k < ?r * ?c" for k
  proof -
    from k have r: "0 < ?r" by (cases ?r) simp_all
    have "k mod ?r < ?r" using r by simp
    moreover have "k div ?r < ?c" using k by (simp add: less_mult_imp_div_less mult.commute)
    ultimately have "(k mod ?r) * ?c + k div ?r < ?r * ?c" by (rule index_bound)
    then have "\<not> isNaN (?src ! ((k mod ?r) * ?c + k div ?r))"
      using n len by (simp add: no_NaN_def list_all_length)
    then show ?thesis by (rule fround_not_NaN)
  qed
  then have "no_NaN (transposeM E A)" by (simp add: no_NaN_def els list_all_iff)
  moreover have "buffer_ok (transposeM E A)"
    using len by (simp add: buffer_ok_def transposeM_fields mult.commute)
  moreover have "flags_ok (transposeM E A)" "one_flag (transposeM E A)"
    using f by (auto simp: flags_ok_def one_flag_def transposeM_fields)
  moreover have "shape_ok (transposeM E A)"
    by (simp add: shape_ok_def transposeM_def Let_def updateShape_def)
  ultimately show ?thesis by simp
qed

lemma scale_NaN:
  "scale exact_env matrix_A NaN = Inr (matrix_A\<lparr>mElements := [NaN, NaN, NaN, NaN]\<rparr>)"
  by (simp add: scale_def clone_def matrix_A_def typeof_number_def)

subsection \<open>Products by the algorithm of Strassen\<close>

lemma bindE_InrE:
  assumes "bindE m f = Inr y"
  obtains x where "m = Inr x" "f x = Inr y"
  using assms by (cases m) (simp_all add: bindE_def)

text \<open>A write of a value that is not \<^verbatim>\<open>NaN\<close> leaves a storage without \<^verbatim>\<open>NaN\<close> so.\<close>

lemma fold_set_no_NaN:
  assumes "\<forall>x\<in>set xs. \<not> isNaN (val x)" and "list_all (\<lambda>v. \<not> isNaN v) a"
  shows "list_all (\<lambda>v. \<not> isNaN v) (fold (\<lambda>x a. f32_set E a (idx x) (val x)) xs a)"
  using assms
proof (induction xs arbitrary: a)
  case Nil
  then show ?case by simp
next
  case (Cons x xs)
  have "\<not> isNaN (fround E (val x))" using Cons.prems(1) by (simp add: fround_not_NaN)
  then have "list_all (\<lambda>v. \<not> isNaN v) (f32_set E a (idx x) (val x))"
    using Cons.prems(2) by (auto simp: f32_set_def list_all_iff dest!: set_update_subset_insert[THEN subsetD])
  then show ?case using Cons by simp
qed

lemma setSubmatrix_no_NaN:
  assumes blk: "length blk = h * h" and nb: "list_all (\<lambda>v. \<not> isNaN v) blk" and nc: "no_NaN C"
  shows "no_NaN (setSubmatrix E C r0 c0 blk)"
proof -
  let ?idx = "\<lambda>p::nat \<times> nat. (r0 + fst p) * columns C + (c0 + snd p)"
  let ?val = "\<lambda>p::nat \<times> nat. f32_get blk (fst p * h + snd p)"
  have els: "mElements (setSubmatrix E C r0 c0 blk) =
             fold (\<lambda>p a. f32_set E a (?idx p) (?val p)) (List.product [0..<h] [0..<h]) (mElements C)"
    by (simp add: setSubmatrix_def blk sqrt_up_square fold_fold_product case_prod_unfold)
  have "\<forall>p\<in>set (List.product [0..<h] [0..<h]). \<not> isNaN (?val p)"
  proof
    fix p assume "p \<in> set (List.product [0..<h] [0..<h])"
    then have "fst p < h" "snd p < h" by auto
    then have "fst p * h + snd p < h * h" by (rule index_bound)
    then show "\<not> isNaN (?val p)" using nb blk by (simp add: f32_get_def list_all_length)
  qed
  from fold_set_no_NaN[OF this, of "mElements C" E ?idx] nc
  show ?thesis by (simp add: no_NaN_def els)
qed

lemma shape_ok_iff:
  "shape_ok m = (shape m = ''('' @ string_of_nat (rows m) @ '','' @ string_of_nat (columns m) @ '')'')"
  by (cases m) (auto simp: shape_ok_def updateShape_def)

lemma setSubmatrix_eq: "setSubmatrix E C r0 c0 blk = C\<lparr>mElements := mElements (setSubmatrix E C r0 c0 blk)\<rparr>"
  by (simp add: setSubmatrix_def Let_def)

lemma setSubmatrix_square_ok:
  assumes "square_ok n C" and "length blk = h * h" and "list_all (\<lambda>v. \<not> isNaN v) blk"
  shows "square_ok n (setSubmatrix E C r0 c0 blk)"
proof -
  have "no_NaN (setSubmatrix E C r0 c0 blk)"
    using assms by (intro setSubmatrix_no_NaN[of blk h]) (simp_all add: square_ok_def)
  moreover have "shape_ok (setSubmatrix E C r0 c0 blk)"
    using assms(1) by (simp add: square_ok_def shape_ok_iff setSubmatrix_fields)
  ultimately show ?thesis
    using assms(1)
    by (simp add: square_ok_def buffer_ok_def one_flag_def flags_ok_def setSubmatrix_fields)
qed

lemma new_Matrix_square_ok:
  assumes "new_Matrix els n n = Inr C" and "length els = n * n"
  shows "square_ok n C"
  using new_Matrix_Inr[OF assms(1)] assms(2) by (simp add: square_ok_def buffer_ok_def)

lemma getSubmatrix_square_ok: "getSubmatrix E A r0 c0 h = Inr M \<Longrightarrow> square_ok h M"
  by (simp only: getSubmatrix_eq) (erule new_Matrix_square_ok, simp)

lemma add_square_ok:
  assumes "add E X Y = Inr M" and "square_ok h X"
  shows "square_ok h M"
proof -
  from assms(1) have "new_Matrix (fold (add_at E (mElements Y)) [0..<sizeM X] (mElements X)) (rows X) (columns X) = Inr M"
    by (simp add: add_def Let_def split: if_splits)
  moreover have "rows X = h" "columns X = h" "length (mElements X) = h * h"
    using assms(2) by (simp_all add: square_ok_def buffer_ok_def)
  ultimately show ?thesis
    by (intro new_Matrix_square_ok[where els = "fold (add_at E (mElements Y)) [0..<sizeM X] (mElements X)"]) simp_all
qed

lemma subtract_square_ok:
  assumes "subtract E X Y = Inr M" and "square_ok h X"
  shows "square_ok h M"
proof -
  from assms(1) have "new_Matrix (fold (\<lambda>i res. f32_set E res i (nsub E (f32_get res i) (f32_get (mElements Y) i)))
                     [0..<sizeM X] (mElements X)) (rows X) (columns X) = Inr M"
    by (simp add: subtract_def Let_def split: if_splits)
  moreover have "rows X = h" "columns X = h" "length (mElements X) = h * h"
    using assms(2) by (simp_all add: square_ok_def buffer_ok_def)
  ultimately show ?thesis
    by (intro new_Matrix_square_ok[where els = "fold (\<lambda>i res. f32_set E res i (nsub E (f32_get res i) (f32_get (mElements Y) i)))
                     [0..<sizeM X] (mElements X)"]) simp_all
qed

lemma setSubmatrix_block_ok:
  assumes "square_ok n C" and "square_ok h M"
  shows "square_ok n (setSubmatrix E C r0 c0 (mElements M))"
  using assms(2) by (intro setSubmatrix_square_ok[OF assms(1), of _ h]) (simp_all add: square_ok_def buffer_ok_def no_NaN_def)

text \<open>The recursive case of \<^verbatim>\<open>strassenMultiply\<close>, and what a result says of the tests
  that come before it.\<close>

lemma strassen_unfold:
  assumes "\<not> (\<not> isSquare A \<or> \<not> isSquare B \<or> columns A \<noteq> rows B \<or> \<not> isPowerOfTwo (rows A))" and "\<not> rows A \<le> 2"
  shows "strassenMultiply E A B =
    (let n = rows A; h = n div 2 in
    bindE (getSubmatrix E A 0 0 h) (\<lambda>A11.
        bindE (getSubmatrix E A 0 h h) (\<lambda>A12.
        bindE (getSubmatrix E A h 0 h) (\<lambda>A21.
        bindE (getSubmatrix E A h h h) (\<lambda>A22.
        bindE (getSubmatrix E B 0 0 h) (\<lambda>B11.
        bindE (getSubmatrix E B 0 h h) (\<lambda>B12.
        bindE (getSubmatrix E B h 0 h) (\<lambda>B21.
        bindE (getSubmatrix E B h h h) (\<lambda>B22.
        bindE (bindE (subtract E B12 B22) (strassenMultiply E A11)) (\<lambda>P1.
        bindE (bindE (add E A11 A12) (\<lambda>S. strassenMultiply E S B22)) (\<lambda>P2.
        bindE (bindE (add E A21 A22) (\<lambda>S. strassenMultiply E S B11)) (\<lambda>P3.
        bindE (bindE (subtract E B21 B11) (strassenMultiply E A22)) (\<lambda>P4.
        bindE (bindE (add E A11 A22) (\<lambda>S. bindE (add E B11 B22) (strassenMultiply E S))) (\<lambda>P5.
        bindE (bindE (subtract E A12 A22) (\<lambda>S. bindE (add E B21 B22) (strassenMultiply E S))) (\<lambda>P6.
        bindE (bindE (subtract E A11 A21) (\<lambda>S. bindE (add E B11 B12) (strassenMultiply E S))) (\<lambda>P7.
        bindE (bindE (bindE (add E P5 P4) (\<lambda>X. subtract E X P2)) (\<lambda>X. add E X P6)) (\<lambda>C11.
        bindE (add E P1 P2) (\<lambda>C12.
        bindE (add E P3 P4) (\<lambda>C21.
        bindE (bindE (bindE (add E P5 P1) (\<lambda>X. subtract E X P3)) (\<lambda>X. subtract E X P7)) (\<lambda>C22.
        bindE (new_Matrix (f32_new (n * n)) n n) (\<lambda>C.
          Inr (setSubmatrix E
                 (setSubmatrix E
                    (setSubmatrix E
                       (setSubmatrix E C 0 0 (mElements C11))
                       0 h (mElements C12))
                    h 0 (mElements C21))
                 h h (mElements C22)))))))))))))))))))))))"
  by (subst strassenMultiply.simps) (simp only: assms Let_def if_False)


lemma strassen_guard:
  assumes "strassenMultiply E A B = Inr P"
  shows "isSquare A" "isSquare B" "columns A = rows B" "isPowerOfTwo (rows A)"
proof -
  have "\<not> (\<not> isSquare A \<or> \<not> isSquare B \<or> columns A \<noteq> rows B \<or> \<not> isPowerOfTwo (rows A))"
  proof
    assume "\<not> isSquare A \<or> \<not> isSquare B \<or> columns A \<noteq> rows B \<or> \<not> isPowerOfTwo (rows A)"
    then have "strassenMultiply E A B =
               Inl (Error ''Matrices must be square and have dimensions that are powers of 2'')"
      by (subst strassenMultiply.simps) (simp only: Let_def if_True)
    with assms show False by simp
  qed
  then show "isSquare A" "isSquare B" "columns A = rows B" "isPowerOfTwo (rows A)" by simp_all
qed

lemma strassen_small:
  assumes "rows A \<le> 2" and "strassenMultiply E A B = Inr P"
  shows "naiveMultiply E A B = Inr P"
proof -
  from strassen_guard[OF assms(2)]
  have "\<not> (\<not> isSquare A \<or> \<not> isSquare B \<or> columns A \<noteq> rows B \<or> \<not> isPowerOfTwo (rows A))" by simp
  then have "strassenMultiply E A B = naiveMultiply E A B"
    using assms(1) by (subst strassenMultiply.simps) (simp only: Let_def if_True if_False)
  with assms(2) show ?thesis by simp
qed

text \<open>
  One level of the recursion: when the seven products of blocks are square matrices of
  half the dimension with all the properties, so is, of the full dimension, the matrix
  assembled from them.
\<close>

lemma strassen_step:
  assumes IH: "\<And>S T Q. square_ok (rows A div 2) S \<Longrightarrow> square_ok (rows A div 2) T \<Longrightarrow>
                 strassenMultiply E S T = Inr Q \<Longrightarrow> square_ok (rows A div 2) Q"
    and eq: "strassenMultiply E A B = Inr P" and big: "2 < rows A"
  shows "square_ok (rows A) P"
proof -
  define n where "n = rows A"
  note IH' = IH[folded n_def, rotated 2]
  from strassen_guard[OF eq]
  have g: "\<not> (\<not> isSquare A \<or> \<not> isSquare B \<or> columns A \<noteq> rows B \<or> \<not> isPowerOfTwo (rows A))" by simp
  have nle: "\<not> rows A \<le> 2" using big by simp
  have zero: "\<And>C. new_Matrix (f32_new (n * n)) n n = Inr C \<Longrightarrow> square_ok n C"
    by (erule new_Matrix_square_ok) (simp add: f32_new_def)
  from eq show ?thesis
    unfolding strassen_unfold[OF g nle] Let_def n_def[symmetric]
    apply (elim bindE_InrE)
    apply (simp only: sum.inject)
    apply hypsubst
    apply (drule getSubmatrix_square_ok)+
    apply ((drule (1) add_square_ok | drule (1) subtract_square_ok | drule (2) IH')+)
    apply (intro setSubmatrix_block_ok zero; assumption)
    done
qed


lemma naiveMultiply_dims:
  assumes "naiveMultiply E A B = Inr P"
  shows "rows P = rows A" "columns P = columns B" "columns A = rows B"
proof -
  from assms show c: "columns A = rows B" by (simp add: naiveMultiply_def split: if_splits)
  with assms have "new_Matrix (map (\<lambda>k. fround E (naive_dot E A B (k div columns B) (k mod columns B)))
                         [0..<rows A * columns B]) (rows A) (columns B) = Inr P"
    by (simp add: naiveMultiply_eq)
  from new_Matrix_Inr[OF this] show "rows P = rows A" "columns P = columns B" by simp_all
qed

lemma strassen_square_ok:
  "flags_ok A \<Longrightarrow> flags_ok B \<Longrightarrow> strassenMultiply E A B = Inr P \<Longrightarrow> square_ok (rows A) P"
proof (induction "rows A" arbitrary: A B P rule: less_induct)
  case less
  show ?case
  proof (cases "rows A \<le> 2")
    case True
    from strassen_small[OF True less.prems(3)] have nm: "naiveMultiply E A B = Inr P" .
    from strassen_guard[OF less.prems(3)] less.prems(1,2)
    have "rows A = columns A" "rows B = columns B" "columns A = rows B" by (simp_all add: flags_ok_def)
    then have "rows P = rows A" "columns P = rows A" using naiveMultiply_dims[OF nm] by simp_all
    then show ?thesis using naiveMultiply_Inr[OF nm] by (simp add: square_ok_def)
  next
    case False
    then have big: "2 < rows A" by simp
    show ?thesis
    proof (rule strassen_step[OF _ less.prems(3) big])
      fix S T Q
      assume S: "square_ok (rows A div 2) S" and T: "square_ok (rows A div 2) T"
        and Q: "strassenMultiply E S T = Inr Q"
      have "rows S < rows A" using S big by (simp add: square_ok_def)
      from less.hyps[OF this _ _ Q] S T show "square_ok (rows A div 2) Q" by (simp add: square_ok_def)
    qed
  qed
qed

lemma strassenMultiply_Inr:
  assumes "strassenMultiply E A B = Inr P"
  shows "buffer_ok P \<and> no_NaN P \<and> one_flag P \<and> flags_ok P \<and> shape_ok P"
proof (cases "rows A \<le> 2")
  case True
  from naiveMultiply_Inr[OF strassen_small[OF True assms]] show ?thesis .
next
  case False
  then have big: "2 < rows A" by simp
  have "square_ok (rows A) P"
  proof (rule strassen_step[OF _ assms big])
    fix S T Q
    assume S: "square_ok (rows A div 2) S" and T: "square_ok (rows A div 2) T"
      and Q: "strassenMultiply E S T = Inr Q"
    from strassen_square_ok[OF _ _ Q] S T show "square_ok (rows A div 2) Q" by (simp add: square_ok_def)
  qed
  then show ?thesis by (simp add: square_ok_def)
qed

subsection \<open>The other operations\<close>

lemma identity_Inr:
  assumes "identity E d = Inr m"
  shows "buffer_ok m \<and> no_NaN m \<and> one_flag m \<and> flags_ok m \<and> shape_ok m"
proof -
  from assms have "Matrix_of_rows E (identity_entries (nat d)) = Inr m"
    by (simp add: identity_def split: if_splits)
  from Matrix_of_rows_Inr[OF this] show ?thesis by simp
qed

lemma transposeM_of_rows:
  assumes "Matrix_of_rows E entries = Inr m"
  shows "buffer_ok (transposeM E m) \<and> no_NaN (transposeM E m) \<and> one_flag (transposeM E m) \<and>
         flags_ok (transposeM E m) \<and> shape_ok (transposeM E m)"
  using Matrix_of_rows_Inr[OF assms] by (intro transposeM_invariants) simp_all

lemma invertUpper_Inr:
  assumes "invertUpper E A = Inr m"
  shows "buffer_ok m \<and> no_NaN m \<and> one_flag m \<and> flags_ok m \<and> shape_ok m"
proof -
  from assms obtain entries m0 where "Matrix_of_rows E entries = Inr m0" "m = transposeM E m0"
    unfolding invertUpper_def
    by (auto elim!: bindE_InrE split: if_splits)
  then show ?thesis using transposeM_of_rows by simp
qed

lemma invertLower_Inr:
  assumes "invertLower E A = Inr m"
  shows "buffer_ok m \<and> no_NaN m \<and> one_flag m \<and> flags_ok m \<and> shape_ok m"
proof -
  from assms obtain entries m0 where "Matrix_of_rows E entries = Inr m0" "m = transposeM E m0"
    unfolding invertLower_def
    by (auto elim!: bindE_InrE split: if_splits)
  then show ?thesis using transposeM_of_rows by simp
qed

lemma gramSmith_Inr:
  assumes "gramSmith E A = Inr m"
  shows "buffer_ok m \<and> no_NaN m \<and> one_flag m \<and> flags_ok m \<and> shape_ok m"
proof -
  from assms obtain entries where "Matrix_of_rows E entries = Inr m"
    unfolding gramSmith_def Let_def
    by (auto elim!: bindE_InrE)
  from Matrix_of_rows_Inr[OF this] show ?thesis by simp
qed

lemma QRDecomposition_Inr:
  assumes "QRDecomposition E A = Inr (Q, R)"
  shows "(buffer_ok Q \<and> no_NaN Q \<and> one_flag Q \<and> flags_ok Q \<and> shape_ok Q) \<and>
         (buffer_ok R \<and> no_NaN R \<and> one_flag R \<and> flags_ok R \<and> shape_ok R)"
proof -
  from assms have "gramSmith E A = Inr Q" "naiveMultiply E (transposeM E Q) A = Inr R"
    unfolding QRDecomposition_def Let_def
    by (auto elim!: bindE_InrE)
  then show ?thesis using gramSmith_Inr naiveMultiply_Inr by blast
qed

lemma scale_Inr:
  assumes "scale E A s = Inr K"
  shows "buffer_ok K = buffer_ok A \<and> one_flag K = one_flag A \<and> flags_ok K = flags_ok A \<and>
         shape_ok K = shape_ok A"
proof -
  from assms have "K = A\<lparr>mElements := map (\<lambda>entry. fround E (nmul E entry s)) (mElements A)\<rparr>"
    by (simp add: scale_def clone_def Let_def split: if_splits)
  then show ?thesis
    by (simp add: buffer_ok_def one_flag_def flags_ok_def shape_ok_iff)
qed

lemma scale_finite:
  assumes "scale E A (Fin x) = Inr K" and "all_finite A"
  shows "no_NaN K"
proof -
  from assms(1) have K: "mElements K = map (\<lambda>entry. fround E (nmul E entry (Fin x))) (mElements A)"
    by (auto simp: scale_def clone_def Let_def split: if_splits)
  have "\<not> isNaN (fround E (nmul E v (Fin x)))" if "v \<in> set (mElements A)" for v
  proof -
    from that assms(2) have "case v of Fin x \<Rightarrow> True | _ \<Rightarrow> False"
      by (simp add: all_finite_def list_all_iff)
    then obtain y where "v = Fin y" by (cases v) simp_all
    then show ?thesis by (intro fround_not_NaN) (simp add: isNaN_def mk64_def Let_def)
  qed
  then show ?thesis by (simp add: no_NaN_def K list_all_iff)
qed

lemma transposeM_keeps:
  "buffer_ok (transposeM E A) = buffer_ok A"
  "shape_ok (transposeM E A)"
  "one_flag A \<Longrightarrow> one_flag (transposeM E A)"
  "flags_ok A \<Longrightarrow> flags_ok (transposeM E A)"
proof -
  show "buffer_ok (transposeM E A) = buffer_ok A"
    by (simp add: buffer_ok_def transposeM_fields mult.commute)
  show "shape_ok (transposeM E A)" by (simp add: shape_ok_iff transposeM_fields)
  show "one_flag A \<Longrightarrow> one_flag (transposeM E A)" by (auto simp: one_flag_def transposeM_fields)
  show "flags_ok A \<Longrightarrow> flags_ok (transposeM E A)" by (auto simp: flags_ok_def transposeM_fields)
qed

lemma transposeM_no_NaN:
  assumes b: "buffer_ok A" and n: "no_NaN A"
  shows "no_NaN (transposeM E A)"
proof -
  let ?r = "rows A" and ?c = "columns A" and ?src = "mElements A"
  have len: "length ?src = ?r * ?c" using b by (simp add: buffer_ok_def)
  have els: "mElements (transposeM E A) = map (\<lambda>k. fround E (?src ! ((k mod ?r) * ?c + k div ?r))) [0..<?r * ?c]"
    by (simp add: transposeM_fields transpose_loop_eq[OF len])
  have "\<not> isNaN (fround E (?src ! ((k mod ?r) * ?c + k div ?r)))" if k: "k < ?r * ?c" for k
  proof -
    from k have r: "0 < ?r" by (cases ?r) simp_all
    have "k mod ?r < ?r" using r by simp
    moreover have "k div ?r < ?c" using k by (simp add: less_mult_imp_div_less mult.commute)
    ultimately have "(k mod ?r) * ?c + k div ?r < ?r * ?c" by (rule index_bound)
    then have "\<not> isNaN (?src ! ((k mod ?r) * ?c + k div ?r))"
      using n len by (simp add: no_NaN_def list_all_length)
    then show ?thesis by (rule fround_not_NaN)
  qed
  then show ?thesis by (simp add: no_NaN_def els list_all_iff)
qed

lemma setElement_Inr:
  assumes "setElement E A r c v = Inr K"
  shows "buffer_ok K = buffer_ok A \<and> one_flag K = one_flag A \<and> flags_ok K = flags_ok A \<and>
         shape_ok K = shape_ok A"
proof -
  from assms obtain k where "K = A\<lparr>mElements := f32_set E (mElements A) k v\<rparr>"
    by (auto simp: setElement_def Let_def split: if_splits)
  then show ?thesis
    by (simp add: buffer_ok_def one_flag_def flags_ok_def shape_ok_iff f32_set_update)
qed

lemma setSubmatrix_keeps:
  "buffer_ok (setSubmatrix E C r0 c0 blk) = buffer_ok C"
  "one_flag (setSubmatrix E C r0 c0 blk) = one_flag C"
  "flags_ok (setSubmatrix E C r0 c0 blk) = flags_ok C"
  "shape_ok (setSubmatrix E C r0 c0 blk) = shape_ok C"
  by (simp_all add: buffer_ok_def one_flag_def flags_ok_def shape_ok_iff setSubmatrix_fields)





lemma setElement_NaN:
  "setElement exact_env matrix_A 0 0 NaN = Inr (matrix_A\<lparr>mElements := [NaN, Fin 2, Fin 3, Fin 4]\<rparr>)"
  by (simp add: setElement_def matrix_A_def eval_simps)


lemma isNaN_fround: "isNaN (fround E v) = isNaN v"
  by (cases v) (simp_all add: isNaN_def mk32_def Let_def)

lemma scale_no_NaN:
  assumes "scale E A s = Inr K"
  shows "no_NaN K = list_all (\<lambda>v. \<not> isNaN (nmul E v s)) (mElements A)"
proof -
  from assms have "mElements K = map (\<lambda>entry. fround E (nmul E entry s)) (mElements A)"
    by (auto simp: scale_def clone_def Let_def split: if_splits)
  then show ?thesis by (simp add: no_NaN_def list_all_iff isNaN_fround)
qed

lemma transposeM_no_NaN_le:
  assumes b: "rows A * columns A \<le> length (mElements A)" and n: "no_NaN A"
  shows "no_NaN (transposeM E A)"
proof -
  let ?r = "rows A" and ?c = "columns A" and ?src = "mElements A"
  let ?idx = "\<lambda>p::nat \<times> nat. snd p * ?r + fst p"
  let ?val = "\<lambda>p::nat \<times> nat. f32_get ?src (fst p * ?c + snd p)"
  have els: "mElements (transposeM E A) =
             fold (\<lambda>p a. f32_set E a (?idx p) (?val p)) (List.product [0..<?r] [0..<?c]) ?src"
    by (simp add: transposeM_fields transpose_loop_def fold_fold_product case_prod_unfold)
  have "\<forall>p\<in>set (List.product [0..<?r] [0..<?c]). \<not> isNaN (?val p)"
  proof
    fix p assume "p \<in> set (List.product [0..<?r] [0..<?c])"
    then have "fst p < ?r" "snd p < ?c" by auto
    then have "fst p * ?c + snd p < ?r * ?c" by (rule index_bound)
    then have "fst p * ?c + snd p < length ?src" using b by simp
    then show "\<not> isNaN (?val p)" using n by (simp add: f32_get_def no_NaN_def list_all_length)
  qed
  from fold_set_no_NaN[OF this, of ?src E ?idx] n
  show ?thesis by (simp add: no_NaN_def els)
qed

lemma setElement_no_NaN:
  assumes "setElement E A r c v = Inr K" and "no_NaN A" and "\<not> isNaN v"
  shows "no_NaN K"
proof -
  from assms(1) obtain k where K: "mElements K = f32_set E (mElements A) k v"
    by (auto simp: setElement_def Let_def split: if_splits)
  have "\<forall>x\<in>set [()]. \<not> isNaN ((\<lambda>_. v) x)" using assms(3) by simp
  from fold_set_no_NaN[OF this, of "mElements A" E "\<lambda>_. k"] assms(2)
  show ?thesis by (simp add: no_NaN_def K)
qed

text \<open>
  C3, as the code has it, for dimensions that are integers. A matrix a constructor
  returns has no \<^verbatim>\<open>NaN\<close> in its storage (an infinity is accepted), exactly one of its
  three flags is set, the one that compares its rows with its columns, and its shape
  label prints its dimensions. Built from an array of rows, its storage has one value for
  every entry; built from a \<^verbatim>\<open>Float32Array\<close>, which becomes the storage unchecked, it
  has so exactly when the array given has.

  The results of \<^verbatim>\<open>add\<close>, \<^verbatim>\<open>subtract\<close>, \<^verbatim>\<open>addasync\<close>, \<^verbatim>\<open>naiveMultiply\<close>,
  \<^verbatim>\<open>strassenMultiply\<close>, \<^verbatim>\<open>getSubmatrix\<close>, \<^verbatim>\<open>identity\<close>, \<^verbatim>\<open>invertUpper\<close>,
  \<^verbatim>\<open>invertLower\<close>, \<^verbatim>\<open>gramSmith\<close> and \<^verbatim>\<open>QRDecomposition\<close> (both \<open>Q\<close> and \<open>R\<close>)
  have all these properties, with one reservation: the storage of a sum or a difference
  has one value for every entry exactly when that of the receiver has.

  \<^verbatim>\<open>scale\<close> and \<^verbatim>\<open>transpose\<close> do not go through a constructor. \<^verbatim>\<open>scale\<close> keeps the
  length of the storage, the flags and the shape label of its receiver, and stores a
  \<^verbatim>\<open>NaN\<close> exactly where the product of the stored value and the scalar is one; there is
  none when the scalar and every stored value are finite. \<^verbatim>\<open>transpose\<close> keeps the
  length of the storage, sets the shape label, keeps the flags right if they were, and
  stores no \<^verbatim>\<open>NaN\<close> when its receiver has none and has a value stored for every entry.
  The writes in place, \<^verbatim>\<open>setElement\<close> and \<^verbatim>\<open>setSubmatrix\<close>, keep the length of the
  storage, the flags and the shape label of their target; they store no \<^verbatim>\<open>NaN\<close> when
  the target has none and the value written is not one, respectively the block written
  has none and its length is a square.
\<close>

theorem constructor_invariants:
  "(Matrix_of_rows E entries = Inr m \<longrightarrow>
      buffer_ok m \<and> no_NaN m \<and> one_flag m \<and> flags_ok m \<and> shape_ok m) \<and>
   (Matrix_of_buffer buf r c = Inr mb \<longrightarrow>
      no_NaN mb \<and> one_flag mb \<and> flags_ok mb \<and> shape_ok mb \<and>
      buffer_ok mb = (length buf = rows mb * columns mb)) \<and>
   (add E A B = Inr S \<longrightarrow>
      no_NaN S \<and> one_flag S \<and> flags_ok S \<and> shape_ok S \<and> buffer_ok S = buffer_ok A) \<and>
   (subtract E A B = Inr D \<longrightarrow>
      no_NaN D \<and> one_flag D \<and> flags_ok D \<and> shape_ok D \<and> buffer_ok D = buffer_ok A) \<and>
   (addasync E numProcessors A B = Inr Sa \<longrightarrow>
      no_NaN Sa \<and> one_flag Sa \<and> flags_ok Sa \<and> shape_ok Sa \<and> buffer_ok Sa = buffer_ok A) \<and>
   (naiveMultiply E A B = Inr P \<longrightarrow>
      buffer_ok P \<and> no_NaN P \<and> one_flag P \<and> flags_ok P \<and> shape_ok P) \<and>
   (strassenMultiply E A B = Inr Ps \<longrightarrow>
      buffer_ok Ps \<and> no_NaN Ps \<and> one_flag Ps \<and> flags_ok Ps \<and> shape_ok Ps) \<and>
   (getSubmatrix E A startRow startCol h = Inr G \<longrightarrow>
      buffer_ok G \<and> no_NaN G \<and> one_flag G \<and> flags_ok G \<and> shape_ok G) \<and>
   (identity E dimension = Inr Idn \<longrightarrow>
      buffer_ok Idn \<and> no_NaN Idn \<and> one_flag Idn \<and> flags_ok Idn \<and> shape_ok Idn) \<and>
   (invertUpper E A = Inr U \<longrightarrow>
      buffer_ok U \<and> no_NaN U \<and> one_flag U \<and> flags_ok U \<and> shape_ok U) \<and>
   (invertLower E A = Inr L \<longrightarrow>
      buffer_ok L \<and> no_NaN L \<and> one_flag L \<and> flags_ok L \<and> shape_ok L) \<and>
   (gramSmith E A = Inr Q \<longrightarrow>
      buffer_ok Q \<and> no_NaN Q \<and> one_flag Q \<and> flags_ok Q \<and> shape_ok Q) \<and>
   (QRDecomposition E A = Inr (Qd, R) \<longrightarrow>
      (buffer_ok Qd \<and> no_NaN Qd \<and> one_flag Qd \<and> flags_ok Qd \<and> shape_ok Qd) \<and>
      (buffer_ok R \<and> no_NaN R \<and> one_flag R \<and> flags_ok R \<and> shape_ok R)) \<and>
   (scale E A scalar = Inr K \<longrightarrow>
      buffer_ok K = buffer_ok A \<and> one_flag K = one_flag A \<and>
      flags_ok K = flags_ok A \<and> shape_ok K = shape_ok A \<and>
      no_NaN K = list_all (\<lambda>v. \<not> isNaN (nmul E v scalar)) (mElements A)) \<and>
   (scale E A (Fin x) = Inr Kf \<and> all_finite A \<longrightarrow> no_NaN Kf) \<and>
   buffer_ok (transposeM E A) = buffer_ok A \<and>
   shape_ok (transposeM E A) \<and>
   (one_flag A \<longrightarrow> one_flag (transposeM E A)) \<and>
   (flags_ok A \<longrightarrow> flags_ok (transposeM E A)) \<and>
   (rows A * columns A \<le> length (mElements A) \<and> no_NaN A \<longrightarrow> no_NaN (transposeM E A)) \<and>
   (setElement E A row column v = Inr As \<longrightarrow>
      buffer_ok As = buffer_ok A \<and> one_flag As = one_flag A \<and>
      flags_ok As = flags_ok A \<and> shape_ok As = shape_ok A \<and>
      (no_NaN A \<and> \<not> isNaN v \<longrightarrow> no_NaN As)) \<and>
   buffer_ok (setSubmatrix E A startRow startCol blk) = buffer_ok A \<and>
   one_flag (setSubmatrix E A startRow startCol blk) = one_flag A \<and>
   flags_ok (setSubmatrix E A startRow startCol blk) = flags_ok A \<and>
   shape_ok (setSubmatrix E A startRow startCol blk) = shape_ok A \<and>
   (length blk = k * k \<and> list_all (\<lambda>v. \<not> isNaN v) blk \<and> no_NaN A \<longrightarrow>
      no_NaN (setSubmatrix E A startRow startCol blk))"
proof -
  have f1: "Matrix_of_rows E entries = Inr m \<longrightarrow>
      buffer_ok m \<and> no_NaN m \<and> one_flag m \<and> flags_ok m \<and> shape_ok m"
    using Matrix_of_rows_Inr[of E entries m] by simp
  have f2: "Matrix_of_buffer buf r c = Inr mb \<longrightarrow>
      no_NaN mb \<and> one_flag mb \<and> flags_ok mb \<and> shape_ok mb \<and>
      buffer_ok mb = (length buf = rows mb * columns mb)"
    using Matrix_of_buffer_Inr[of buf r c mb] by (simp add: buffer_ok_def)
  have f3: "add E A B = Inr S \<longrightarrow>
      no_NaN S \<and> one_flag S \<and> flags_ok S \<and> shape_ok S \<and> buffer_ok S = buffer_ok A"
    using add_Inr[of E A B S] by simp
  have f4: "subtract E A B = Inr D \<longrightarrow>
      no_NaN D \<and> one_flag D \<and> flags_ok D \<and> shape_ok D \<and> buffer_ok D = buffer_ok A"
    using subtract_Inr[of E A B D] by simp
  have f5: "addasync E numProcessors A B = Inr Sa \<longrightarrow>
      no_NaN Sa \<and> one_flag Sa \<and> flags_ok Sa \<and> shape_ok Sa \<and> buffer_ok Sa = buffer_ok A"
    using addasync_Inr[of E numProcessors A B Sa] by simp
  have f6: "naiveMultiply E A B = Inr P \<longrightarrow>
      buffer_ok P \<and> no_NaN P \<and> one_flag P \<and> flags_ok P \<and> shape_ok P"
    using naiveMultiply_Inr[of E A B P] by simp
  have f7: "strassenMultiply E A B = Inr Ps \<longrightarrow>
      buffer_ok Ps \<and> no_NaN Ps \<and> one_flag Ps \<and> flags_ok Ps \<and> shape_ok Ps"
    using strassenMultiply_Inr[of E A B Ps] by simp
  have f8: "getSubmatrix E A startRow startCol h = Inr G \<longrightarrow>
      buffer_ok G \<and> no_NaN G \<and> one_flag G \<and> flags_ok G \<and> shape_ok G"
    using getSubmatrix_Inr[of E A startRow startCol h G] by simp
  have f9: "identity E dimension = Inr Idn \<longrightarrow>
      buffer_ok Idn \<and> no_NaN Idn \<and> one_flag Idn \<and> flags_ok Idn \<and> shape_ok Idn"
    using identity_Inr[of E dimension Idn] by simp
  have f10: "invertUpper E A = Inr U \<longrightarrow>
      buffer_ok U \<and> no_NaN U \<and> one_flag U \<and> flags_ok U \<and> shape_ok U"
    using invertUpper_Inr[of E A U] by simp
  have f11: "invertLower E A = Inr L \<longrightarrow>
      buffer_ok L \<and> no_NaN L \<and> one_flag L \<and> flags_ok L \<and> shape_ok L"
    using invertLower_Inr[of E A L] by simp
  have f12: "gramSmith E A = Inr Q \<longrightarrow>
      buffer_ok Q \<and> no_NaN Q \<and> one_flag Q \<and> flags_ok Q \<and> shape_ok Q"
    using gramSmith_Inr[of E A Q] by simp
  have f13: "QRDecomposition E A = Inr (Qd, R) \<longrightarrow>
      (buffer_ok Qd \<and> no_NaN Qd \<and> one_flag Qd \<and> flags_ok Qd \<and> shape_ok Qd) \<and>
      (buffer_ok R \<and> no_NaN R \<and> one_flag R \<and> flags_ok R \<and> shape_ok R)"
    using QRDecomposition_Inr[of E A Qd R] by simp
  have f14: "scale E A scalar = Inr K \<longrightarrow>
      buffer_ok K = buffer_ok A \<and> one_flag K = one_flag A \<and>
      flags_ok K = flags_ok A \<and> shape_ok K = shape_ok A \<and>
      no_NaN K = list_all (\<lambda>v. \<not> isNaN (nmul E v scalar)) (mElements A)"
    using scale_Inr[of E A scalar K] scale_no_NaN[of E A scalar K] by simp
  have f15: "scale E A (Fin x) = Inr Kf \<and> all_finite A \<longrightarrow> no_NaN Kf"
    using scale_finite[of E A x Kf] by simp
  have f16: "rows A * columns A \<le> length (mElements A) \<and> no_NaN A \<longrightarrow> no_NaN (transposeM E A)"
    using transposeM_no_NaN_le[of A E] by simp
  have f17: "one_flag A \<longrightarrow> one_flag (transposeM E A)" "flags_ok A \<longrightarrow> flags_ok (transposeM E A)"
    using transposeM_keeps(3,4)[of A E] by simp_all
  have f18: "setElement E A row column v = Inr As \<longrightarrow>
      buffer_ok As = buffer_ok A \<and> one_flag As = one_flag A \<and>
      flags_ok As = flags_ok A \<and> shape_ok As = shape_ok A \<and>
      (no_NaN A \<and> \<not> isNaN v \<longrightarrow> no_NaN As)"
    using setElement_Inr[of E A row column v As] setElement_no_NaN[of E A row column v As] by simp
  have f19: "length blk = k * k \<and> list_all (\<lambda>v. \<not> isNaN v) blk \<and> no_NaN A \<longrightarrow>
      no_NaN (setSubmatrix E A startRow startCol blk)"
    using setSubmatrix_no_NaN[of blk k A E startRow startCol] by simp
  show ?thesis
    by (intro conjI) (rule f1 f2 f3 f4 f5 f6 f7 f8 f9 f10 f11 f12 f13 f14 f15 f16 f17 f18 f19
          transposeM_keeps(1,2) setSubmatrix_keeps)+
qed


text \<open>
  C3 fails as it is stated. The constructor accepts an infinite entry, and a
  \<^verbatim>\<open>Float32Array\<close> of three values for a 2 by 2 matrix. \<^verbatim>\<open>scale\<close> stores \<^verbatim>\<open>NaN\<close>
  when the scalar is \<^verbatim>\<open>NaN\<close>; \<^verbatim>\<open>transpose\<close> stores \<^verbatim>\<open>NaN\<close> for an entry that has
  no value in the storage of its receiver, as on \<open>matrix_P\<close>, which the constructor
  returns; \<^verbatim>\<open>setElement\<close> stores the \<^verbatim>\<open>NaN\<close> it is given.
\<close>

theorem constructor_invariants_counterexample:
  "Matrix_of_rows exact_env [[PInf]] = Inr matrix_Inf \<and> \<not> all_finite matrix_Inf \<and>
   Matrix_of_buffer [Fin 1, Fin 2, Fin 3] (Some 2) (Some 2) = Inr matrix_short \<and>
   \<not> buffer_ok matrix_short \<and>
   scale exact_env matrix_A NaN = Inr (matrix_A\<lparr>mElements := [NaN, NaN, NaN, NaN]\<rparr>) \<and>
   \<not> no_NaN (matrix_A\<lparr>mElements := [NaN, NaN, NaN, NaN]\<rparr>) \<and>
   Matrix_of_buffer [Fin 1, Fin 2, Fin 3, Fin 4] (Some 2) (Some 3) = Inr matrix_P \<and>
   mElements (transposeM exact_env matrix_P) = [Fin 1, Fin 4, Fin 2, NaN] \<and>
   \<not> no_NaN (transposeM exact_env matrix_P) \<and>
   setElement exact_env matrix_A 0 0 NaN = Inr (matrix_A\<lparr>mElements := [NaN, Fin 2, Fin 3, Fin 4]\<rparr>) \<and>
   \<not> no_NaN (matrix_A\<lparr>mElements := [NaN, Fin 2, Fin 3, Fin 4]\<rparr>)"
proof -
  have "\<not> no_NaN (transposeM exact_env matrix_P)"
    by (simp add: no_NaN_def transposeM_P isNaN_def)
  then show ?thesis
    using scale_NaN matrix_P_constructed transposeM_P setElement_NaN
    by (simp add: eval_simps matrix_Inf_def matrix_short_def all_finite_def buffer_ok_def no_NaN_def)
qed

end
